theory Spec2Isabelle
  imports Main "HOL-Library.Word"
begin

section \<open>The quorum ack tracker\<close>

text \<open>
  A shallow embedding of the Go type \<open>quorumAckTracker\<close> (package \<open>server\<close>) and of the
  method \<open>update\<close> of \<open>shardManagerImpl\<close> (package \<open>internal\<close>).

  Conventions of the model.
  \<^item> Every method that takes the tracker lock runs atomically, so a method is a function
    from the tracker state (and its arguments) to the new state (and its result).
  \<^item> Offsets are Go \<open>int64\<close> and are \<open>64 word\<close> here: \<open>+ 1\<close> wraps around from \<open>MaxInt64\<close> to
    the least value, and offsets are compared as signed values (\<open>\<le>s\<close>, \<open><s\<close>).
  \<^item> A \<open>for\<close> loop of the code that may run forever is a partial function to \<open>option\<close>:
    \<open>None\<close> says that the loop, and with it the method, never returns.
  \<^item> \<open>replicationFactor\<close> and \<open>requiredAcks\<close> are Go \<open>uint32\<close> and are \<open>32 word\<close> here:
    \<open>replicationFactor - 1\<close> wraps around as it does in Go.
  \<^item> \<open>cursorIdxGenerator\<close> and \<open>cursorIdx\<close> are Go \<open>int\<close>; the conversion
    \<open>uint32(q.cursorIdxGenerator)\<close> is \<open>word_of_int\<close>, which truncates to 32 bits. The code
    increases the generator only when \<open>uint32(q.cursorIdxGenerator)\<close> is below
    \<open>replicationFactor - 1\<close>, which is never the case at the greatest \<open>int\<close> of 64 bits, so
    that the increment does not wrap around.
  \<^item> A closure is known by an identifier; calling it appends the identifier and the
    error it was given to the log \<open>invoked\<close> of the state (\<open>None\<close> is Go's \<open>nil\<close> error).
\<close>

type_synonym int64 = "64 word"
type_synonym uint32 = "32 word"
type_synonym closure_id = nat

definition MaxInt64 :: int64 where
  "MaxInt64 = 9223372036854775807"

datatype error =
    ErrTooManyCursors
  | ErrInvalidHeadOffset
  | ErrorAlreadyClosed
  | ContextError nat

text \<open>
  Modelled from the spec: \<open>util.BitSet\<close>, whose source is not part of the sources at
  hand. The spec describes a bitset of fixed capacity that holds at most
  \<open>replicationFactor - 1\<close> bits, the positions \<open>0, \<dots>, replicationFactor - 2\<close>, with the
  operations \<open>set(i)\<close> and \<open>count()\<close>, \<open>set\<close> being idempotent. A bitset is the set of the
  positions that are set and \<open>count\<close> is its cardinality. The spec does not say what \<open>set\<close>
  does with a position outside the capacity: the model gives the outcome
  \<open>OutOfCapacity\<close> there, and a method that meets it has no result in the model.
\<close>

datatype 'a outcome = Returns 'a | OutOfCapacity

type_synonym BitSet = "int set"

definition BitSet_Set :: "int \<Rightarrow> int \<Rightarrow> BitSet \<Rightarrow> BitSet outcome" where
  "BitSet_Set capacity idx e =
     (if 0 \<le> idx \<and> idx < capacity then Returns (insert idx e) else OutOfCapacity)"

definition BitSet_Count :: "BitSet \<Rightarrow> int" where
  "BitSet_Count e = int (card e)"

text \<open>
  Modelled from the spec: \<open>common.ConditionContext\<close>, whose source is not part of the
  sources at hand. \<open>Broadcast\<close> wakes every waiter; the state keeps the number of
  broadcasts made so far. \<open>Wait(ctx)\<close> releases the lock and returns either the cancellation
  cause of \<open>ctx\<close>, or \<open>nil\<close> after a broadcast, with the lock taken again: the tracker
  state the waiter then sees is chosen by the other threads, so it is part of the outcome.
\<close>

type_synonym ConditionContext = nat

definition Broadcast :: "ConditionContext \<Rightarrow> ConditionContext" where
  "Broadcast c = Suc c"

record waitingRequest =
  minOffset :: int64
  closure :: closure_id

record quorumAckTracker =
  waitingRequests :: "waitingRequest list"
  waitForHeadOffset :: ConditionContext
  replicationFactor :: uint32
  requiredAcks :: uint32
  nextOffset :: int64
  headOffset :: int64
  commitOffset :: int64
  tracker :: "int64 \<rightharpoonup> BitSet"
  cursorIdxGenerator :: int
  closed :: bool
  invoked :: "(closure_id \<times> error option) list"

text \<open>The capacity of the bitsets of a tracker, as the spec gives it.\<close>

definition BitSet_capacity :: "quorumAckTracker \<Rightarrow> int" where
  "BitSet_capacity q = uint (replicationFactor q) - 1"

datatype wait_outcome =
    Cancelled error
  | Woken quorumAckTracker

text \<open>Calling a closure with an error (\<open>None\<close> for \<open>nil\<close>).\<close>

definition call_closure :: "closure_id \<Rightarrow> error option \<Rightarrow> quorumAckTracker \<Rightarrow> quorumAckTracker" where
  "call_closure f err q = q\<lparr>invoked := invoked q @ [(f, err)]\<rparr>"

text \<open>
  The loop of \<open>NewQuorumAckTracker\<close>:
  \<^verbatim>\<open>for offset := commitOffset + 1; offset <= headOffset; offset++ { q.tracker[offset] = &util.BitSet{} }\<close>
  With \<open>headOffset = MaxInt64\<close> the condition always holds and the loop never ends.
\<close>

partial_function (option) NewQuorumAckTracker_loop ::
  "int64 \<Rightarrow> int64 \<Rightarrow> quorumAckTracker \<Rightarrow> quorumAckTracker option" where
  "NewQuorumAckTracker_loop off h q =
     (if off <=s h
      then NewQuorumAckTracker_loop (off + 1) h (q\<lparr>tracker := (tracker q)(off \<mapsto> {})\<rparr>)
      else Some q)"

definition NewQuorumAckTracker :: "uint32 \<Rightarrow> int64 \<Rightarrow> int64 \<Rightarrow> quorumAckTracker option" where
  "NewQuorumAckTracker rf h c =
     NewQuorumAckTracker_loop (c + 1) h
       \<lparr> waitingRequests = [],
         waitForHeadOffset = 0,
         replicationFactor = rf,
         requiredAcks = rf div 2,
         nextOffset = h,
         headOffset = h,
         commitOffset = c,
         tracker = Map.empty,
         cursorIdxGenerator = 0,
         closed = False,
         invoked = [] \<rparr>"

text \<open>
  \<open>notifyCommitOffsetAdvanced\<close>. The \<open>range\<close> loop runs over the slice as it is when the
  loop starts (the second argument of the loop function), while the body replaces
  \<open>q.waitingRequests\<close> by \<open>q.waitingRequests[1:]\<close>.
\<close>

fun notifyCommitOffsetAdvanced_loop ::
  "int64 \<Rightarrow> waitingRequest list \<Rightarrow> quorumAckTracker \<Rightarrow> quorumAckTracker" where
  "notifyCommitOffsetAdvanced_loop c [] q = q"
| "notifyCommitOffsetAdvanced_loop c (r # rs) q =
     (if c <s minOffset r then q
      else notifyCommitOffsetAdvanced_loop c rs
             (call_closure (closure r) None (q\<lparr>waitingRequests := drop 1 (waitingRequests q)\<rparr>)))"

definition notifyCommitOffsetAdvanced :: "int64 \<Rightarrow> quorumAckTracker \<Rightarrow> quorumAckTracker" where
  "notifyCommitOffsetAdvanced c q =
     notifyCommitOffsetAdvanced_loop c (waitingRequests q) (q\<lparr>commitOffset := c\<rparr>)"

definition AdvanceHeadOffset :: "int64 \<Rightarrow> quorumAckTracker \<Rightarrow> quorumAckTracker" where
  "AdvanceHeadOffset h q =
     (if h <=s headOffset q then q
      else
        let q1 = q\<lparr>headOffset := h, waitForHeadOffset := Broadcast (waitForHeadOffset q)\<rparr>
        in if requiredAcks q1 = 0 then notifyCommitOffsetAdvanced h q1
           else q1\<lparr>tracker := (tracker q1)(h \<mapsto> {})\<rparr>)"

text \<open>\<open>NextOffset\<close> is \<open>q.nextOffset.Add(1)\<close>: the addition wraps around.\<close>

definition NextOffset :: "quorumAckTracker \<Rightarrow> int64 \<times> quorumAckTracker" where
  "NextOffset q = (nextOffset q + 1, q\<lparr>nextOffset := nextOffset q + 1\<rparr>)"

definition CommitOffset :: "quorumAckTracker \<Rightarrow> int64" where
  "CommitOffset q = commitOffset q"

definition HeadOffset :: "quorumAckTracker \<Rightarrow> int64" where
  "HeadOffset q = headOffset q"

text \<open>
  \<open>WaitForHeadOffset\<close>. The third argument lists the outcomes of the successive calls of
  \<open>q.waitForHeadOffset.Wait(ctx)\<close>. The result is \<open>None\<close> when the call is still blocked
  after them, \<open>Some None\<close> when it returns \<open>nil\<close> and \<open>Some (Some e)\<close> when it returns the
  error \<open>e\<close>.
\<close>

fun WaitForHeadOffset ::
  "int64 \<Rightarrow> quorumAckTracker \<Rightarrow> wait_outcome list \<Rightarrow> error option option" where
  "WaitForHeadOffset off q ws =
     (if \<not> closed q \<and> headOffset q <s off
      then (case ws of
              [] \<Rightarrow> None
            | Cancelled err # _ \<Rightarrow> Some (Some err)
            | Woken q' # ws' \<Rightarrow> WaitForHeadOffset off q' ws')
      else Some None)"

definition WaitForCommitOffsetAsync ::
  "int64 \<Rightarrow> closure_id \<Rightarrow> quorumAckTracker \<Rightarrow> quorumAckTracker" where
  "WaitForCommitOffsetAsync off f q =
     (if closed q then call_closure f (Some ErrorAlreadyClosed) q
      else if requiredAcks q = 0 \<or> off <=s commitOffset q then call_closure f None q
      else q\<lparr>waitingRequests := waitingRequests q @ [\<lparr>minOffset = off, closure = f\<rparr>]\<rparr>)"

definition Close :: "quorumAckTracker \<Rightarrow> error option \<times> quorumAckTracker" where
  "Close q = (None, q\<lparr>closed := True, waitForHeadOffset := Broadcast (waitForHeadOffset q)\<rparr>)"

text \<open>
  \<open>cursorAcker.ack\<close>. A \<open>cursorAcker\<close> is its \<open>cursorIdx\<close>: the tracker it points back to is
  the state that is passed along.
\<close>

definition ack :: "int \<Rightarrow> int64 \<Rightarrow> quorumAckTracker \<Rightarrow> quorumAckTracker outcome" where
  "ack cursorIdx off q =
     (case tracker q off of
        None \<Rightarrow> Returns q
      | Some e \<Rightarrow>
          (case BitSet_Set (BitSet_capacity q) cursorIdx e of
             OutOfCapacity \<Rightarrow> OutOfCapacity
           | Returns e' \<Rightarrow>
               Returns
                 (let q1 = q\<lparr>tracker := (tracker q)(off \<mapsto> e')\<rparr>
                  in if (word_of_int (BitSet_Count e') :: uint32) = requiredAcks q1
                     then notifyCommitOffsetAdvanced off (q1\<lparr>tracker := (tracker q1)(off := None)\<rparr>)
                     else q1)))"

definition Ack :: "int \<Rightarrow> int64 \<Rightarrow> quorumAckTracker \<Rightarrow> quorumAckTracker outcome" where
  "Ack cursorIdx off q = ack cursorIdx off q"

text \<open>
  The loop of \<open>NewCursorAcker\<close>:
  \<^verbatim>\<open>for offset := q.commitOffset.Load() + 1; offset <= ackOffset; offset++ { qa.ack(offset) }\<close>
  With \<open>ackOffset = MaxInt64\<close> the condition always holds, and with
  \<open>commitOffset = MaxInt64\<close> the loop starts at the least offset.
\<close>

partial_function (option) NewCursorAcker_loop ::
  "int \<Rightarrow> int64 \<Rightarrow> int64 \<Rightarrow> quorumAckTracker \<Rightarrow> quorumAckTracker outcome option" where
  "NewCursorAcker_loop cursorIdx off ackOffset q =
     (if off <=s ackOffset
      then (case ack cursorIdx off q of
              OutOfCapacity \<Rightarrow> Some OutOfCapacity
            | Returns q' \<Rightarrow> NewCursorAcker_loop cursorIdx (off + 1) ackOffset q')
      else Some (Returns q))"

definition NewCursorAcker ::
  "int64 \<Rightarrow> quorumAckTracker \<Rightarrow> (error + (int \<times> quorumAckTracker)) outcome option" where
  "NewCursorAcker ackOffset q =
     (if (word_of_int (cursorIdxGenerator q) :: uint32) \<ge> replicationFactor q - 1
      then Some (Returns (Inl ErrTooManyCursors))
      else if headOffset q <s ackOffset then Some (Returns (Inl ErrInvalidHeadOffset))
      else
        (case NewCursorAcker_loop (cursorIdxGenerator q) (commitOffset q + 1) ackOffset q of
           None \<Rightarrow> None
         | Some OutOfCapacity \<Rightarrow> Some OutOfCapacity
         | Some (Returns q1) \<Rightarrow>
             Some (Returns (Inr (cursorIdxGenerator q,
                                 q1\<lparr>cursorIdxGenerator := cursorIdxGenerator q1 + 1\<rparr>)))))"

text \<open>
  Sequences of calls. An operation of a run is one call of a method of the tracker. A
  cursor can only be acked once \<open>NewCursorAcker\<close> has handed it out, that is when its index
  is below \<open>cursorIdxGenerator\<close>: a run that acks another cursor is not a run of the
  program. \<open>step\<close> gives the state after a call that returns, and \<open>None\<close> for a call that is
  not one of the program or that has no result. A call of \<open>NewCursorAcker\<close> that returns an
  error leaves the state as it is. \<open>start\<close> is the construction followed by a run.
\<close>

datatype op =
    NextOffsetOp
  | AdvanceHeadOffsetOp int64
  | AckOp int int64
  | NewCursorAckerOp int64
  | WaitForCommitOffsetAsyncOp int64 closure_id
  | CloseOp

fun step :: "op \<Rightarrow> quorumAckTracker \<Rightarrow> quorumAckTracker option" where
  "step NextOffsetOp q = Some (snd (NextOffset q))"
| "step (AdvanceHeadOffsetOp h) q = Some (AdvanceHeadOffset h q)"
| "step (AckOp cursorIdx off) q =
     (if 0 \<le> cursorIdx \<and> cursorIdx < cursorIdxGenerator q
      then (case Ack cursorIdx off q of Returns q' \<Rightarrow> Some q' | OutOfCapacity \<Rightarrow> None)
      else None)"
| "step (NewCursorAckerOp ackOffset) q =
     (case NewCursorAcker ackOffset q of
        None \<Rightarrow> None
      | Some OutOfCapacity \<Rightarrow> None
      | Some (Returns (Inl err)) \<Rightarrow> Some q
      | Some (Returns (Inr (qa, q'))) \<Rightarrow> Some q')"
| "step (WaitForCommitOffsetAsyncOp off f) q = Some (WaitForCommitOffsetAsync off f q)"
| "step CloseOp q = Some (snd (Close q))"

fun run :: "op list \<Rightarrow> quorumAckTracker \<Rightarrow> quorumAckTracker option" where
  "run [] q = Some q"
| "run (x # xs) q = (case step x q of None \<Rightarrow> None | Some q' \<Rightarrow> run xs q')"

definition start :: "uint32 \<Rightarrow> int64 \<Rightarrow> int64 \<Rightarrow> op list \<Rightarrow> quorumAckTracker option" where
  "start rf h c xs = (case NewQuorumAckTracker rf h c of None \<Rightarrow> None | Some q \<Rightarrow> run xs q)"

text \<open>
  The write path reserves an offset with \<open>NextOffset\<close> before it advances the head to it.
  \<open>reserved ops q\<close> holds when, in the run \<open>ops\<close> started in \<open>q\<close>, every \<open>AdvanceHeadOffset\<close>
  is called with an offset that is at most \<open>nextOffset\<close> at that moment, and \<open>NextOffset\<close> is
  never called when \<open>nextOffset\<close> is \<open>MaxInt64\<close>.
\<close>

fun reserved :: "op list \<Rightarrow> quorumAckTracker \<Rightarrow> bool" where
  "reserved [] q = True"
| "reserved (x # xs) q =
     ((case x of
         AdvanceHeadOffsetOp h \<Rightarrow> h <=s nextOffset q
       | NextOffsetOp \<Rightarrow> nextOffset q \<noteq> MaxInt64
       | _ \<Rightarrow> True) \<and>
      (case step x q of None \<Rightarrow> True | Some q' \<Rightarrow> reserved xs q'))"

text \<open>The invariant as the specification words it.\<close>

definition offsets_ordered :: "quorumAckTracker \<Rightarrow> bool" where
  "offsets_ordered q = (commitOffset q <=s headOffset q \<and> headOffset q <=s nextOffset q - 1)"

text \<open>
  A sequence of acks, each given by the index of its cursor and the offset; it has a
  result when every ack has one.
\<close>

fun acks :: "(int \<times> int64) list \<Rightarrow> quorumAckTracker \<Rightarrow> quorumAckTracker outcome" where
  "acks [] q = Returns q"
| "acks (p # ps) q =
     (case Ack (fst p) (snd p) q of OutOfCapacity \<Rightarrow> OutOfCapacity | Returns q' \<Rightarrow> acks ps q')"

text \<open>The offsets from \<open>lo\<close> up to \<open>hi\<close>, in increasing order.\<close>

definition offsets_between :: "int64 \<Rightarrow> int64 \<Rightarrow> int64 list" where
  "offsets_between lo hi = map word_of_int [sint lo..sint hi]"

text \<open>A list without the later repetitions of its elements.\<close>

fun drop_repeats :: "'a list \<Rightarrow> 'a list" where
  "drop_repeats [] = []"
| "drop_repeats (x # xs) = x # drop_repeats (filter (\<lambda>y. y \<noteq> x) xs)"

section \<open>The shard manager\<close>

text \<open>
  Modelled from the spec: the types \<open>Shard\<close> and \<open>HashRange\<close>, declared in a file that is
  not part of the sources at hand. A shard has an id, a leader address and a hash range;
  a hash range is an inclusive interval of 32-bit values.
\<close>

record HashRange =
  MinInclusive :: uint32
  MaxInclusive :: uint32

record Shard =
  Id' :: uint32
  Leader :: string
  HashRange :: HashRange

definition overlap :: "HashRange \<Rightarrow> HashRange \<Rightarrow> bool" where
  "overlap a b = (\<not> (MinInclusive a > MaxInclusive b \<or> MaxInclusive a < MinInclusive b))"

text \<open>
  \<open>shardManagerImpl.update\<close> works on the field \<open>shards\<close>. Go leaves the order in which
  \<open>range\<close> visits a map open: the model takes it as a parameter, a function that lists the
  keys of a map in the order of the visit. An entry deleted before the loop reaches it is
  not visited.
\<close>

fun update_delete_overlaps ::
  "Shard \<Rightarrow> uint32 list \<Rightarrow> (uint32 \<rightharpoonup> Shard) \<Rightarrow> (uint32 \<rightharpoonup> Shard)" where
  "update_delete_overlaps upd [] shards = shards"
| "update_delete_overlaps upd (shardId # ks) shards =
     (case shards shardId of
        None \<Rightarrow> update_delete_overlaps upd ks shards
      | Some existing \<Rightarrow>
          if overlap (HashRange upd) (HashRange existing)
          then update_delete_overlaps upd ks (shards(shardId := None))
          else update_delete_overlaps upd ks shards)"

fun update ::
  "((uint32 \<rightharpoonup> Shard) \<Rightarrow> uint32 list) \<Rightarrow> Shard list \<Rightarrow> (uint32 \<rightharpoonup> Shard) \<Rightarrow> (uint32 \<rightharpoonup> Shard)" where
  "update range_order [] shards = shards"
| "update range_order (upd # updates) shards =
     update range_order updates
       ((if shards (Id' upd) = None
         then update_delete_overlaps upd (range_order shards) shards
         else shards)(Id' upd \<mapsto> upd))"

definition without_overlaps :: "Shard \<Rightarrow> (uint32 \<rightharpoonup> Shard) \<Rightarrow> (uint32 \<rightharpoonup> Shard)" where
  "without_overlaps upd shards =
     (\<lambda>k. case shards k of
            None \<Rightarrow> None
          | Some existing \<Rightarrow>
              if overlap (HashRange upd) (HashRange existing) then None else Some existing)"

text \<open>One order of visit: the keys in increasing order.\<close>

definition sorted_keys :: "(uint32 \<rightharpoonup> Shard) \<Rightarrow> uint32 list" where
  "sorted_keys m = sorted_list_of_set (dom m)"

section \<open>Predicates of the proofs\<close>

text \<open>A waiting request is due at a commit offset when its \<open>minOffset\<close> is at most that offset.\<close>

definition due :: "int64 \<Rightarrow> waitingRequest \<Rightarrow> bool" where
  "due c r = (minOffset r <=s c)"

text \<open>
  The commit offset is at most the head offset, and so is every offset that has an entry
  in the tracker map.
\<close>

definition tracker_inv :: "quorumAckTracker \<Rightarrow> bool" where
  "tracker_inv q =
     (commitOffset q <=s headOffset q \<and> (\<forall>x. tracker q x \<noteq> None \<longrightarrow> x <=s headOffset q))"

text \<open>A cursor index is within the capacity of the bitsets of a tracker.\<close>

definition in_capacity :: "int \<Rightarrow> quorumAckTracker \<Rightarrow> bool" where
  "in_capacity i q = (0 \<le> i \<and> i < BitSet_capacity q)"

text \<open>
  An ack \<open>(cursorIdx, offset)\<close> is settled in a state when acking it again changes nothing:
  the offset has no entry in the tracker map, or its bitset holds the cursor, whose index
  is within the capacity, and its count is not the threshold.
\<close>

definition settled :: "int \<times> int64 \<Rightarrow> quorumAckTracker \<Rightarrow> bool" where
  "settled p q =
     (case tracker q (snd p) of
        None \<Rightarrow> True
      | Some e \<Rightarrow>
          fst p \<in> e \<and> in_capacity (fst p) q \<and>
          (word_of_int (BitSet_Count e) :: uint32) \<noteq> requiredAcks q)"

section \<open>Signed arithmetic on offsets\<close>

lemma sint_MaxInt64: "sint MaxInt64 = 9223372036854775807"
  by (simp add: MaxInt64_def)

lemma sle_MaxInt64: "x <=s MaxInt64"
  using sint_lt [of x] by (simp add: word_sle_eq sint_MaxInt64)

lemma sint_less_MaxInt64: "x \<noteq> MaxInt64 \<Longrightarrow> sint x < 9223372036854775807"
proof -
  assume "x \<noteq> MaxInt64"
  then have "sint x \<noteq> sint MaxInt64"
    by (simp add: word_eq_iff_signed [where ?'a = int])
  moreover have "sint x < 2 ^ 63"
    using sint_lt [of x] by simp
  ultimately show ?thesis by (simp add: sint_MaxInt64)
qed

lemma sint_Suc: "x \<noteq> MaxInt64 \<Longrightarrow> sint (x + 1) = sint x + 1"
proof -
  assume a: "x \<noteq> MaxInt64"
  have "- (2 ^ 63) \<le> sint x" using sint_ge [of x] by simp
  with sint_less_MaxInt64 [OF a] show ?thesis
    by (simp add: sint_word_ariths signed_take_bit_int_eq_self)
qed

lemma sle_Suc_iff: "(lo::int64) \<noteq> MaxInt64 \<Longrightarrow> x \<noteq> lo \<Longrightarrow> (lo + 1 <=s x) = (lo <=s x)"
  using sint_Suc [of lo] by (auto simp: word_sle_eq word_eq_iff_signed [where ?'a = int])

lemma sless_Suc: "(x::int64) \<noteq> MaxInt64 \<Longrightarrow> x <s x + 1"
  by (simp add: word_sless_alt sint_Suc)

lemma sle_not_MaxInt64: "(x::int64) <=s h \<Longrightarrow> h \<noteq> MaxInt64 \<Longrightarrow> x \<noteq> MaxInt64"
  using sint_less_MaxInt64 [of h] by (auto simp: word_sle_eq sint_MaxInt64)

lemma sint_word_of_int64:
  "- 9223372036854775808 \<le> k \<Longrightarrow> k \<le> 9223372036854775807 \<Longrightarrow> sint (word_of_int k :: int64) = k"
  by (simp add: signed_of_int signed_take_bit_int_eq_self)

section \<open>Closed forms of the loops\<close>

lemma notifyCommitOffsetAdvanced_loop_eq:
  "waitingRequests q = rs \<Longrightarrow>
   notifyCommitOffsetAdvanced_loop c rs q =
     q\<lparr>waitingRequests := dropWhile (due c) rs,
       invoked := invoked q @ map (\<lambda>r. (closure r, None)) (takeWhile (due c) rs)\<rparr>"
proof (induction rs arbitrary: q)
  case Nil
  then show ?case by simp
next
  case (Cons r rs)
  show ?case
  proof (cases "c <s minOffset r")
    case True
    with Cons.prems show ?thesis by (simp add: due_def word_sle_eq word_sless_alt)
  next
    case False
    let ?q' = "call_closure (closure r) None (q\<lparr>waitingRequests := drop 1 (waitingRequests q)\<rparr>)"
    have w: "waitingRequests ?q' = rs"
      using Cons.prems by (simp add: call_closure_def)
    have d: "due c r" using False by (simp add: due_def word_sle_eq word_sless_alt)
    show ?thesis
      using False d Cons.IH [OF w] Cons.prems by (simp add: call_closure_def)
  qed
qed

lemma notifyCommitOffsetAdvanced_eq:
  "notifyCommitOffsetAdvanced c q =
     q\<lparr>commitOffset := c,
       waitingRequests := dropWhile (due c) (waitingRequests q),
       invoked := invoked q @ map (\<lambda>r. (closure r, None)) (takeWhile (due c) (waitingRequests q))\<rparr>"
  by (simp add: notifyCommitOffsetAdvanced_def notifyCommitOffsetAdvanced_loop_eq)

lemma NewQuorumAckTracker_loop_steps:
  "h \<noteq> MaxInt64 \<Longrightarrow> nat (sint h + 1 - sint off) = n \<Longrightarrow>
   NewQuorumAckTracker_loop off h q =
     Some (q\<lparr>tracker := (\<lambda>x. if off <=s x \<and> x <=s h then Some {} else tracker q x)\<rparr>)"
proof (induction n arbitrary: off q)
  case 0
  then have "\<not> off <=s h" by (simp add: word_sle_eq)
  then have "(\<lambda>x. if off <=s x \<and> x <=s h then Some {} else tracker q x) = tracker q"
    by (auto simp: fun_eq_iff word_sle_eq)
  with \<open>\<not> off <=s h\<close> show ?case
    by (subst NewQuorumAckTracker_loop.simps) simp
next
  case (Suc n)
  then have le: "off <=s h" by (simp add: word_sle_eq)
  have ne: "off \<noteq> MaxInt64" using le Suc.prems(1) by (rule sle_not_MaxInt64)
  have "nat (sint h + 1 - sint (off + 1)) = n"
    using Suc.prems(2) by (simp add: sint_Suc [OF ne])
  from Suc.IH [OF Suc.prems(1) this]
  have ih: "NewQuorumAckTracker_loop (off + 1) h (q\<lparr>tracker := (tracker q)(off \<mapsto> {})\<rparr>) =
      Some (q\<lparr>tracker := (\<lambda>x. if off + 1 <=s x \<and> x <=s h then Some {}
                                 else ((tracker q)(off \<mapsto> {})) x)\<rparr>)"
    by (simp cong: if_cong)
  have "(\<lambda>x. if off + 1 <=s x \<and> x <=s h then Some {} else ((tracker q)(off \<mapsto> {})) x) =
        (\<lambda>x. if off <=s x \<and> x <=s h then Some {} else tracker q x)"
    using le sle_Suc_iff [OF ne] by (auto simp: fun_eq_iff)
  with ih le show ?case
    by (subst NewQuorumAckTracker_loop.simps) simp
qed

lemma NewQuorumAckTracker_loop_eq:
  "h \<noteq> MaxInt64 \<Longrightarrow>
   NewQuorumAckTracker_loop off h q =
     Some (q\<lparr>tracker := (\<lambda>x. if off <=s x \<and> x <=s h then Some {} else tracker q x)\<rparr>)"
  by (rule NewQuorumAckTracker_loop_steps) simp_all

lemma NewQuorumAckTracker_eq:
  "h \<noteq> MaxInt64 \<Longrightarrow>
   NewQuorumAckTracker rf h c =
     Some \<lparr> waitingRequests = [], waitForHeadOffset = 0, replicationFactor = rf,
       requiredAcks = rf div 2, nextOffset = h, headOffset = h, commitOffset = c,
       tracker = (\<lambda>x. if c + 1 <=s x \<and> x <=s h then Some {} else None),
       cursorIdxGenerator = 0, closed = False, invoked = [] \<rparr>"
  by (simp add: NewQuorumAckTracker_def NewQuorumAckTracker_loop_eq cong: if_cong)

text \<open>With \<open>headOffset = MaxInt64\<close> the constructor never returns.\<close>

lemma NewQuorumAckTracker_loop_Some:
  assumes "NewQuorumAckTracker_loop off h q = Some y"
  shows "h \<noteq> MaxInt64"
  by (rule NewQuorumAckTracker_loop.raw_induct [where P = "\<lambda>off h q y. h \<noteq> MaxInt64", OF _ assms])
     (auto simp: sle_MaxInt64 split: if_splits)

lemma NewQuorumAckTracker_loop_MaxInt64:
  "NewQuorumAckTracker_loop off MaxInt64 q = None"
  using NewQuorumAckTracker_loop_Some [of off MaxInt64 q]
  by (cases "NewQuorumAckTracker_loop off MaxInt64 q") auto

lemma NewQuorumAckTracker_MaxInt64: "NewQuorumAckTracker rf MaxInt64 c = None"
  by (simp add: NewQuorumAckTracker_def NewQuorumAckTracker_loop_MaxInt64)

section \<open>The ack path\<close>

lemma ack_cases:
  "ack i off q = OutOfCapacity \<and> tracker q off \<noteq> None \<and> \<not> in_capacity i q \<or>
   ack i off q = Returns q \<and> tracker q off = None \<or>
   (\<exists>e. tracker q off = Some e \<and> in_capacity i q \<and>
        (word_of_int (BitSet_Count (insert i e)) :: uint32) \<noteq> requiredAcks q \<and>
        ack i off q = Returns (q\<lparr>tracker := (tracker q)(off \<mapsto> insert i e)\<rparr>)) \<or>
   (\<exists>e. tracker q off = Some e \<and> in_capacity i q \<and>
        (word_of_int (BitSet_Count (insert i e)) :: uint32) = requiredAcks q \<and>
        ack i off q =
          Returns (notifyCommitOffsetAdvanced off (q\<lparr>tracker := (tracker q)(off := None)\<rparr>)))"
  by (auto simp: ack_def Let_def BitSet_Set_def in_capacity_def split: option.splits)

lemma ack_fields:
  assumes "ack i off q = Returns q'"
  shows "headOffset q' = headOffset q"
    and "nextOffset q' = nextOffset q"
    and "requiredAcks q' = requiredAcks q"
    and "replicationFactor q' = replicationFactor q"
    and "cursorIdxGenerator q' = cursorIdxGenerator q"
    and "closed q' = closed q"
    and "waitForHeadOffset q' = waitForHeadOffset q"
  using assms ack_cases [of i off q]
  by (auto simp: notifyCommitOffsetAdvanced_eq)

lemma ack_in_capacity: "ack i off q = Returns q' \<Longrightarrow> in_capacity j q' = in_capacity j q"
  by (simp add: in_capacity_def BitSet_capacity_def ack_fields)

lemma ack_in_capacity_Returns: "in_capacity i q \<Longrightarrow> \<exists>q'. ack i off q = Returns q'"
  using ack_cases [of i off q] by auto

lemma acks_fields:
  assumes "acks ps q = Returns q'"
  shows "headOffset q' = headOffset q \<and> nextOffset q' = nextOffset q \<and>
         requiredAcks q' = requiredAcks q \<and> replicationFactor q' = replicationFactor q \<and>
         cursorIdxGenerator q' = cursorIdxGenerator q \<and> closed q' = closed q"
  using assms
proof (induction ps arbitrary: q)
  case Nil
  then show ?case by simp
next
  case (Cons p ps)
  then obtain q1 where a: "ack (fst p) (snd p) q = Returns q1" and r: "acks ps q1 = Returns q'"
    by (auto simp: Ack_def split: outcome.splits)
  from Cons.IH [OF r] ack_fields [OF a] show ?case by simp
qed

lemma NewCursorAcker_loop_steps:
  "a \<noteq> MaxInt64 \<Longrightarrow> nat (sint a + 1 - sint lo) = n \<Longrightarrow>
   NewCursorAcker_loop i lo a q = Some (acks (map (Pair i) (offsets_between lo a)) q)"
proof (induction n arbitrary: lo q)
  case 0
  then have n: "\<not> lo <=s a" by (simp add: word_sle_eq)
  then have "offsets_between lo a = []" by (simp add: offsets_between_def word_sle_eq)
  with n show ?case
    by (subst NewCursorAcker_loop.simps) simp
next
  case (Suc n)
  then have le: "lo <=s a" by (simp add: word_sle_eq)
  have ne: "lo \<noteq> MaxInt64" using le Suc.prems(1) by (rule sle_not_MaxInt64)
  have m: "nat (sint a + 1 - sint (lo + 1)) = n"
    using Suc.prems(2) by (simp add: sint_Suc [OF ne])
  have "[sint lo..sint a] = sint lo # [sint lo + 1..sint a]"
    using le by (simp add: upto_rec1 word_sle_eq)
  then have o: "offsets_between lo a = lo # offsets_between (lo + 1) a"
    by (simp add: offsets_between_def sint_Suc [OF ne])
  show ?case
  proof (cases "ack i lo q")
    case (Returns q1)
    with le o Suc.IH [OF Suc.prems(1) m, of q1] show ?thesis
      by (subst NewCursorAcker_loop.simps) (simp add: Ack_def)
  next
    case OutOfCapacity
    with le o show ?thesis
      by (subst NewCursorAcker_loop.simps) (simp add: Ack_def)
  qed
qed

lemma NewCursorAcker_loop_eq:
  "a \<noteq> MaxInt64 \<Longrightarrow>
   NewCursorAcker_loop i lo a q = Some (acks (map (Pair i) (offsets_between lo a)) q)"
  by (rule NewCursorAcker_loop_steps) simp_all

text \<open>
  With \<open>ackOffset = MaxInt64\<close> the loop of \<open>NewCursorAcker\<close> returns no state; it never
  returns at all when the index of the cursor is within the capacity, or when the tracker
  map is empty.
\<close>

lemma NewCursorAcker_loop_Returns:
  assumes "NewCursorAcker_loop i lo a q = Some y"
  shows "a = MaxInt64 \<longrightarrow> y = OutOfCapacity"
  by (rule NewCursorAcker_loop.raw_induct
        [where P = "\<lambda>i lo a q y. a = MaxInt64 \<longrightarrow> y = OutOfCapacity", OF _ assms])
     (auto simp: sle_MaxInt64 split: if_splits outcome.splits)

lemma NewCursorAcker_loop_in_capacity:
  assumes "NewCursorAcker_loop i lo a q = Some y"
  shows "in_capacity i q \<longrightarrow> y \<noteq> OutOfCapacity"
proof (rule NewCursorAcker_loop.raw_induct
        [where P = "\<lambda>i lo a q y. in_capacity i q \<longrightarrow> y \<noteq> OutOfCapacity", OF _ assms])
  fix lp :: "int \<Rightarrow> int64 \<Rightarrow> int64 \<Rightarrow> quorumAckTracker \<Rightarrow> quorumAckTracker outcome option"
  fix i lo a q y
  assume ih: "\<And>i lo a q y. lp i lo a q = Some y \<Longrightarrow> in_capacity i q \<longrightarrow> y \<noteq> OutOfCapacity"
    and st: "(if lo <=s a
              then case ack i lo q of
                     Returns q' \<Rightarrow> lp i (lo + 1) a q'
                   | OutOfCapacity \<Rightarrow> Some OutOfCapacity
              else Some (Returns q)) = Some y"
  show "in_capacity i q \<longrightarrow> y \<noteq> OutOfCapacity"
  proof
    assume c: "in_capacity i q"
    then obtain q1 where a: "ack i lo q = Returns q1"
      using ack_in_capacity_Returns by blast
    have c1: "in_capacity i q1" using c ack_in_capacity [OF a] by simp
    show "y \<noteq> OutOfCapacity"
    proof (cases "lo <=s a")
      case True
      with st a have "lp i (lo + 1) a q1 = Some y" by simp
      from ih [OF this] c1 show ?thesis by simp
    next
      case False
      with st show ?thesis by auto
    qed
  qed
qed

lemma NewCursorAcker_loop_untracked:
  assumes "NewCursorAcker_loop i lo a q = Some y"
  shows "tracker q = Map.empty \<longrightarrow> y \<noteq> OutOfCapacity"
proof (rule NewCursorAcker_loop.raw_induct
        [where P = "\<lambda>i lo a q y. tracker q = Map.empty \<longrightarrow> y \<noteq> OutOfCapacity", OF _ assms])
  fix lp :: "int \<Rightarrow> int64 \<Rightarrow> int64 \<Rightarrow> quorumAckTracker \<Rightarrow> quorumAckTracker outcome option"
  fix i lo a q y
  assume ih: "\<And>i lo a q y. lp i lo a q = Some y \<Longrightarrow> tracker q = Map.empty \<longrightarrow> y \<noteq> OutOfCapacity"
    and st: "(if lo <=s a
              then case ack i lo q of
                     Returns q' \<Rightarrow> lp i (lo + 1) a q'
                   | OutOfCapacity \<Rightarrow> Some OutOfCapacity
              else Some (Returns q)) = Some y"
  show "tracker q = Map.empty \<longrightarrow> y \<noteq> OutOfCapacity"
  proof
    assume c: "tracker q = Map.empty"
    then have a: "ack i lo q = Returns q" by (simp add: ack_def)
    show "y \<noteq> OutOfCapacity"
    proof (cases "lo <=s a")
      case True
      with st a have "lp i (lo + 1) a q = Some y" by simp
      from ih [OF this] c show ?thesis by simp
    next
      case False
      with st show ?thesis by auto
    qed
  qed
qed

lemma NewCursorAcker_loop_MaxInt64:
  "in_capacity i q \<or> tracker q = Map.empty \<Longrightarrow> NewCursorAcker_loop i lo MaxInt64 q = None"
  using NewCursorAcker_loop_Returns [of i lo MaxInt64 q]
    NewCursorAcker_loop_in_capacity [of i lo MaxInt64 q]
    NewCursorAcker_loop_untracked [of i lo MaxInt64 q]
  by (cases "NewCursorAcker_loop i lo MaxInt64 q") auto

lemma NewCursorAcker_Inr:
  assumes "NewCursorAcker a q = Some (Returns (Inr (i, q')))"
  shows "i = cursorIdxGenerator q \<and> a \<noteq> MaxInt64 \<and>
         (\<exists>q1. acks (map (Pair i) (offsets_between (commitOffset q + 1) a)) q = Returns q1 \<and>
               q' = q1\<lparr>cursorIdxGenerator := cursorIdxGenerator q + 1\<rparr>)"
proof -
  from assms obtain q1 where
    l: "NewCursorAcker_loop (cursorIdxGenerator q) (commitOffset q + 1) a q = Some (Returns q1)"
    and i: "i = cursorIdxGenerator q"
    and q': "q' = q1\<lparr>cursorIdxGenerator := cursorIdxGenerator q1 + 1\<rparr>"
    by (auto simp: NewCursorAcker_def split: if_splits option.splits outcome.splits)
  from NewCursorAcker_loop_Returns [OF l] have a: "a \<noteq> MaxInt64" by auto
  from l NewCursorAcker_loop_eq [OF a, of "cursorIdxGenerator q" "commitOffset q + 1" q]
  have e: "acks (map (Pair (cursorIdxGenerator q)) (offsets_between (commitOffset q + 1) a)) q =
      Returns q1" by simp
  from acks_fields [OF e] have "cursorIdxGenerator q1 = cursorIdxGenerator q" by simp
  with i a e q' show ?thesis by auto
qed

lemma run_append:
  "run (xs @ ys) q = (case run xs q of None \<Rightarrow> None | Some q' \<Rightarrow> run ys q')"
  by (induction xs arbitrary: q) (auto split: option.splits)

lemma WaitForCommitOffsetAsync_fields:
  "commitOffset (WaitForCommitOffsetAsync off f q) = commitOffset q"
  "headOffset (WaitForCommitOffsetAsync off f q) = headOffset q"
  "nextOffset (WaitForCommitOffsetAsync off f q) = nextOffset q"
  "tracker (WaitForCommitOffsetAsync off f q) = tracker q"
  by (simp_all add: WaitForCommitOffsetAsync_def call_closure_def)

lemma AdvanceHeadOffset_next: "nextOffset (AdvanceHeadOffset h q) = nextOffset q"
  by (simp add: AdvanceHeadOffset_def Let_def notifyCommitOffsetAdvanced_eq)

lemma AdvanceHeadOffset_head:
  "headOffset (AdvanceHeadOffset h q) = (if h <=s headOffset q then headOffset q else h)"
  by (simp add: AdvanceHeadOffset_def Let_def notifyCommitOffsetAdvanced_eq)

lemma step_NewCursorAcker_fields:
  assumes "step (NewCursorAckerOp a) q = Some q'"
  shows "headOffset q' = headOffset q \<and> nextOffset q' = nextOffset q"
proof (cases "NewCursorAcker a q")
  case None
  with assms show ?thesis by simp
next
  case (Some r)
  show ?thesis
  proof (cases r)
    case OutOfCapacity
    with Some assms show ?thesis by simp
  next
    case (Returns s)
    show ?thesis
    proof (cases s)
      case (Inl e)
      with Some Returns assms show ?thesis by simp
    next
      case (Inr p)
      obtain i q2 where p: "p = (i, q2)" by (cases p)
      with Some Returns Inr assms have q2: "q2 = q'" by simp
      from Some Returns Inr p q2 have "NewCursorAcker a q = Some (Returns (Inr (i, q')))" by simp
      from NewCursorAcker_Inr [OF this] obtain q1 where
        "acks (map (Pair i) (offsets_between (commitOffset q + 1) a)) q = Returns q1"
        "q' = q1\<lparr>cursorIdxGenerator := cursorIdxGenerator q + 1\<rparr>" by blast
      with acks_fields [of _ q q1] show ?thesis by simp
    qed
  qed
qed

lemmas eval_simps =
  start_def NewQuorumAckTracker_eq MaxInt64_def word_sle_eq word_sless_alt
  AdvanceHeadOffset_def NextOffset_def Close_def
  WaitForCommitOffsetAsync_def call_closure_def notifyCommitOffsetAdvanced_eq due_def
  NewCursorAcker_def NewCursorAcker_loop_eq offsets_between_def Ack_def ack_def
  BitSet_Set_def BitSet_Count_def BitSet_capacity_def Broadcast_def Let_def

section \<open>Close\<close>

text \<open>
  C8. \<open>Close\<close> sets \<open>closed\<close>, broadcasts the head-offset condition once and returns
  \<open>nil\<close>. No other component of the state changes: the waiting requests are not drained,
  no closure is called, and the offsets and the tracker map stay as they are.
\<close>

theorem Close_frame:
  "fst (Close q) = None \<and>
   closed (snd (Close q)) \<and>
   waitForHeadOffset (snd (Close q)) = Broadcast (waitForHeadOffset q) \<and>
   snd (Close q) = q\<lparr>closed := True, waitForHeadOffset := Broadcast (waitForHeadOffset q)\<rparr> \<and>
   waitingRequests (snd (Close q)) = waitingRequests q \<and>
   invoked (snd (Close q)) = invoked q \<and>
   commitOffset (snd (Close q)) = commitOffset q \<and>
   headOffset (snd (Close q)) = headOffset q \<and>
   nextOffset (snd (Close q)) = nextOffset q \<and>
   tracker (snd (Close q)) = tracker q \<and>
   replicationFactor (snd (Close q)) = replicationFactor q \<and>
   requiredAcks (snd (Close q)) = requiredAcks q \<and>
   cursorIdxGenerator (snd (Close q)) = cursorIdxGenerator q"
  by (simp add: Close_def)

text \<open>
  An instance: a tracker with one waiting request is closed; the request stays in the
  queue and its closure is not called.
\<close>

theorem Close_frame_witness:
  "NewQuorumAckTracker 3 5 5 \<noteq> None \<and>
   fst (Close (WaitForCommitOffsetAsync 100 7 (the (NewQuorumAckTracker 3 5 5)))) = None \<and>
   closed (snd (Close (WaitForCommitOffsetAsync 100 7 (the (NewQuorumAckTracker 3 5 5))))) \<and>
   waitingRequests (snd (Close (WaitForCommitOffsetAsync 100 7 (the (NewQuorumAckTracker 3 5 5))))) =
     [\<lparr>minOffset = 100, closure = 7\<rparr>] \<and>
   invoked (snd (Close (WaitForCommitOffsetAsync 100 7 (the (NewQuorumAckTracker 3 5 5))))) = []"
  using Close_frame [of "WaitForCommitOffsetAsync 100 7 (the (NewQuorumAckTracker 3 5 5))"]
  by (simp add: WaitForCommitOffsetAsync_def NewQuorumAckTracker_eq MaxInt64_def word_sle_eq)

section \<open>Commit advancement and the waiting requests\<close>

text \<open>
  C4. For every state of the queue and every \<open>newCommit\<close> greater than the current
  \<open>commitOffset\<close>, \<open>notifyCommitOffsetAdvanced newCommit\<close> stores \<open>newCommit\<close> into
  \<open>commitOffset\<close>, pops the longest prefix of \<open>waitingRequests\<close> (in insertion order) whose
  entries all have \<open>minOffset \<le> newCommit\<close> and calls the closure of each popped entry
  once, with \<open>nil\<close>, in that order. It stops at the first entry with
  \<open>minOffset > newCommit\<close>; the rest of the queue stays as it is, and nothing else changes.
\<close>

theorem notifyCommitOffsetAdvanced_pops_prefix:
  assumes "commitOffset q <s newCommit"
  shows "notifyCommitOffsetAdvanced newCommit q =
           q\<lparr>commitOffset := newCommit,
             waitingRequests := dropWhile (due newCommit) (waitingRequests q),
             invoked := invoked q @
               map (\<lambda>r. (closure r, None)) (takeWhile (due newCommit) (waitingRequests q))\<rparr> \<and>
         waitingRequests q =
           takeWhile (due newCommit) (waitingRequests q) @
           dropWhile (due newCommit) (waitingRequests q) \<and>
         (\<forall>r \<in> set (takeWhile (due newCommit) (waitingRequests q)). minOffset r <=s newCommit) \<and>
         (dropWhile (due newCommit) (waitingRequests q) = [] \<or>
          newCommit <s minOffset (hd (dropWhile (due newCommit) (waitingRequests q))))"
proof -
  have "minOffset r <=s newCommit" if "r \<in> set (takeWhile (due newCommit) (waitingRequests q))" for r
    using set_takeWhileD [OF that] by (simp add: due_def)
  moreover have "newCommit <s minOffset (hd (dropWhile (due newCommit) (waitingRequests q)))"
    if "dropWhile (due newCommit) (waitingRequests q) \<noteq> []"
    using hd_dropWhile [OF that] by (simp add: due_def word_sle_eq word_sless_alt)
  ultimately show ?thesis
    by (auto simp: notifyCommitOffsetAdvanced_eq)
qed

text \<open>
  An instance: requests for the offsets 1, 3 and 2 were queued in this order and the commit
  offset advances to 2. Only the first request is popped: the request for 2 stays behind
  the request for 3.
\<close>

theorem notifyCommitOffsetAdvanced_pops_prefix_witness:
  "NewQuorumAckTracker 3 0 0 \<noteq> None \<and>
   commitOffset (WaitForCommitOffsetAsync 2 12 (WaitForCommitOffsetAsync 3 11
      (WaitForCommitOffsetAsync 1 10 (the (NewQuorumAckTracker 3 0 0))))) <s 2 \<and>
   waitingRequests (notifyCommitOffsetAdvanced 2 (WaitForCommitOffsetAsync 2 12
      (WaitForCommitOffsetAsync 3 11 (WaitForCommitOffsetAsync 1 10 (the (NewQuorumAckTracker 3 0 0)))))) =
     [\<lparr>minOffset = 3, closure = 11\<rparr>, \<lparr>minOffset = 2, closure = 12\<rparr>] \<and>
   invoked (notifyCommitOffsetAdvanced 2 (WaitForCommitOffsetAsync 2 12
      (WaitForCommitOffsetAsync 3 11 (WaitForCommitOffsetAsync 1 10 (the (NewQuorumAckTracker 3 0 0)))))) =
     [(10, None)] \<and>
   commitOffset (notifyCommitOffsetAdvanced 2 (WaitForCommitOffsetAsync 2 12
      (WaitForCommitOffsetAsync 3 11 (WaitForCommitOffsetAsync 1 10 (the (NewQuorumAckTracker 3 0 0)))))) = 2"
proof -
  let ?q = "WaitForCommitOffsetAsync 2 12 (WaitForCommitOffsetAsync 3 11
      (WaitForCommitOffsetAsync 1 10 (the (NewQuorumAckTracker 3 0 0))))"
  have n: "NewQuorumAckTracker 3 0 0 \<noteq> None"
    by (simp add: NewQuorumAckTracker_eq MaxInt64_def)
  have h: "commitOffset ?q <s 2"
    by (simp add: NewQuorumAckTracker_eq MaxInt64_def WaitForCommitOffsetAsync_def word_sle_eq
          word_sless_alt)
  have w: "waitingRequests ?q = [\<lparr>minOffset = 1, closure = 10\<rparr>, \<lparr>minOffset = 3, closure = 11\<rparr>,
      \<lparr>minOffset = 2, closure = 12\<rparr>]" and i: "invoked ?q = []"
    by (simp_all add: NewQuorumAckTracker_eq MaxInt64_def WaitForCommitOffsetAsync_def word_sle_eq)
  show ?thesis
    using n h w i notifyCommitOffsetAdvanced_pops_prefix [OF h] by (simp add: due_def word_sle_eq)
qed

text \<open>
  C5. If \<open>requiredAcks\<close> is 0 and \<open>h\<close> is greater than the current \<open>headOffset\<close>, then after
  \<open>AdvanceHeadOffset h\<close> both \<open>commitOffset\<close> and \<open>headOffset\<close> are \<open>h\<close>, the tracker map is
  as before (no bitset is inserted), and the closures of the front prefix of
  \<open>waitingRequests\<close> with \<open>minOffset \<le> h\<close> have been called with \<open>nil\<close>.
\<close>

theorem AdvanceHeadOffset_requiredAcks_0:
  assumes "requiredAcks q = 0" and "headOffset q <s h"
  shows "commitOffset (AdvanceHeadOffset h q) = h \<and>
         headOffset (AdvanceHeadOffset h q) = h \<and>
         tracker (AdvanceHeadOffset h q) = tracker q \<and>
         invoked (AdvanceHeadOffset h q) =
           invoked q @ map (\<lambda>r. (closure r, None)) (takeWhile (due h) (waitingRequests q)) \<and>
         waitingRequests (AdvanceHeadOffset h q) = dropWhile (due h) (waitingRequests q)"
proof -
  have "\<not> h <=s headOffset q" using assms(2) by (simp add: word_sle_eq word_sless_alt)
  with assms(1) show ?thesis
    by (simp add: AdvanceHeadOffset_def Let_def notifyCommitOffsetAdvanced_eq)
qed

text \<open>
  An instance with replication factor 1: the head advances from 0 to 5, the request for
  offset 3 is served and the request for offset 9 stays.
\<close>

theorem AdvanceHeadOffset_requiredAcks_0_witness:
  "NewQuorumAckTracker 1 0 0 \<noteq> None \<and>
   requiredAcks ((the (NewQuorumAckTracker 1 0 0))
      \<lparr>waitingRequests := [\<lparr>minOffset = 3, closure = 7\<rparr>, \<lparr>minOffset = 9, closure = 8\<rparr>]\<rparr>) = 0 \<and>
   headOffset ((the (NewQuorumAckTracker 1 0 0))
      \<lparr>waitingRequests := [\<lparr>minOffset = 3, closure = 7\<rparr>, \<lparr>minOffset = 9, closure = 8\<rparr>]\<rparr>) <s 5 \<and>
   commitOffset (AdvanceHeadOffset 5 ((the (NewQuorumAckTracker 1 0 0))
      \<lparr>waitingRequests := [\<lparr>minOffset = 3, closure = 7\<rparr>, \<lparr>minOffset = 9, closure = 8\<rparr>]\<rparr>)) = 5 \<and>
   headOffset (AdvanceHeadOffset 5 ((the (NewQuorumAckTracker 1 0 0))
      \<lparr>waitingRequests := [\<lparr>minOffset = 3, closure = 7\<rparr>, \<lparr>minOffset = 9, closure = 8\<rparr>]\<rparr>)) = 5 \<and>
   invoked (AdvanceHeadOffset 5 ((the (NewQuorumAckTracker 1 0 0))
      \<lparr>waitingRequests := [\<lparr>minOffset = 3, closure = 7\<rparr>, \<lparr>minOffset = 9, closure = 8\<rparr>]\<rparr>)) =
     [(7, None)] \<and>
   waitingRequests (AdvanceHeadOffset 5 ((the (NewQuorumAckTracker 1 0 0))
      \<lparr>waitingRequests := [\<lparr>minOffset = 3, closure = 7\<rparr>, \<lparr>minOffset = 9, closure = 8\<rparr>]\<rparr>)) =
     [\<lparr>minOffset = 9, closure = 8\<rparr>]"
proof -
  let ?q = "(the (NewQuorumAckTracker 1 0 0))
      \<lparr>waitingRequests := [\<lparr>minOffset = 3, closure = 7\<rparr>, \<lparr>minOffset = 9, closure = 8\<rparr>]\<rparr>"
  have n: "NewQuorumAckTracker 1 0 0 \<noteq> None"
    by (simp add: NewQuorumAckTracker_eq MaxInt64_def)
  have a: "requiredAcks ?q = 0" and b: "headOffset ?q <s 5"
    by (simp_all add: NewQuorumAckTracker_eq MaxInt64_def word_sless_alt)
  have w: "waitingRequests ?q = [\<lparr>minOffset = 3, closure = 7\<rparr>, \<lparr>minOffset = 9, closure = 8\<rparr>]"
    and i: "invoked ?q = []"
    by (simp_all add: NewQuorumAckTracker_eq MaxInt64_def)
  show ?thesis
    using n a b w i AdvanceHeadOffset_requiredAcks_0 [OF a b] by (simp add: due_def word_sle_eq)
qed

section \<open>The order of the offsets\<close>

lemma tracker_inv_init:
  assumes "c <=s h" and "NewQuorumAckTracker rf h c = Some q0"
  shows "tracker_inv q0"
proof -
  from assms(2) have "h \<noteq> MaxInt64"
    using NewQuorumAckTracker_loop_Some by (auto simp: NewQuorumAckTracker_def)
  from NewQuorumAckTracker_eq [OF this, of rf c] assms show ?thesis
    by (auto simp: tracker_inv_def)
qed

lemma NewQuorumAckTracker_next:
  assumes "NewQuorumAckTracker rf h c = Some q0"
  shows "nextOffset q0 = headOffset q0"
proof -
  from assms have "h \<noteq> MaxInt64"
    using NewQuorumAckTracker_loop_Some by (auto simp: NewQuorumAckTracker_def)
  from NewQuorumAckTracker_eq [OF this, of rf c] assms show ?thesis by auto
qed

lemma tracker_inv_ack: "tracker_inv q \<Longrightarrow> ack i off q = Returns q' \<Longrightarrow> tracker_inv q'"
  using ack_cases [of i off q]
  by (auto simp: tracker_inv_def notifyCommitOffsetAdvanced_eq split: if_splits)

lemma tracker_inv_acks: "tracker_inv q \<Longrightarrow> acks ps q = Returns q' \<Longrightarrow> tracker_inv q'"
proof (induction ps arbitrary: q)
  case Nil
  then show ?case by simp
next
  case (Cons p ps)
  from Cons.prems(2) obtain q1 where a: "ack (fst p) (snd p) q = Returns q1"
    and r: "acks ps q1 = Returns q'"
    by (auto simp: Ack_def split: outcome.splits)
  from Cons.prems(1) a have "tracker_inv q1" by (rule tracker_inv_ack)
  then show ?case using r by (rule Cons.IH)
qed

lemma tracker_inv_AdvanceHeadOffset: "tracker_inv q \<Longrightarrow> tracker_inv (AdvanceHeadOffset h q)"
  by (auto simp: tracker_inv_def AdvanceHeadOffset_def Let_def notifyCommitOffsetAdvanced_eq
        word_sle_eq)

lemma tracker_inv_step: "tracker_inv q \<Longrightarrow> step x q = Some q' \<Longrightarrow> tracker_inv q'"
proof (cases x)
  case NextOffsetOp
  assume "tracker_inv q" "step x q = Some q'"
  with NextOffsetOp show ?thesis by (auto simp: tracker_inv_def NextOffset_def)
next
  case (AdvanceHeadOffsetOp h)
  assume "tracker_inv q" "step x q = Some q'"
  with AdvanceHeadOffsetOp show ?thesis by (auto simp: tracker_inv_AdvanceHeadOffset)
next
  case (AckOp i off)
  assume "tracker_inv q" "step x q = Some q'"
  with AckOp show ?thesis
    by (auto simp: Ack_def split: if_splits outcome.splits dest: tracker_inv_ack)
next
  case (NewCursorAckerOp a)
  assume inv: "tracker_inv q" and st: "step x q = Some q'"
  from st NewCursorAckerOp consider "q' = q"
    | i where "NewCursorAcker a q = Some (Returns (Inr (i, q')))"
    by (auto split: option.splits outcome.splits sum.splits)
  then show ?thesis
  proof cases
    case 1
    with inv show ?thesis by simp
  next
    case 2
    from NewCursorAcker_Inr [OF 2] obtain q1 where
      e: "acks (map (Pair i) (offsets_between (commitOffset q + 1) a)) q = Returns q1"
      and q': "q' = q1\<lparr>cursorIdxGenerator := cursorIdxGenerator q + 1\<rparr>" by blast
    from inv e have "tracker_inv q1" by (rule tracker_inv_acks)
    with q' show ?thesis by (simp add: tracker_inv_def)
  qed
next
  case (WaitForCommitOffsetAsyncOp off f)
  assume "tracker_inv q" "step x q = Some q'"
  with WaitForCommitOffsetAsyncOp show ?thesis
    by (auto simp: tracker_inv_def WaitForCommitOffsetAsync_fields)
next
  case CloseOp
  assume "tracker_inv q" "step x q = Some q'"
  with CloseOp show ?thesis by (auto simp: tracker_inv_def Close_def)
qed

lemma tracker_inv_run: "tracker_inv q \<Longrightarrow> run xs q = Some q' \<Longrightarrow> tracker_inv q'"
  by (induction xs arbitrary: q) (auto split: option.splits dest: tracker_inv_step)

lemma head_le_next_step:
  assumes "headOffset q <=s nextOffset q" and "step x q = Some q'"
    and "case x of
           AdvanceHeadOffsetOp h \<Rightarrow> h <=s nextOffset q
         | NextOffsetOp \<Rightarrow> nextOffset q \<noteq> MaxInt64
         | _ \<Rightarrow> True"
  shows "headOffset q' <=s nextOffset q'"
proof (cases x)
  case NextOffsetOp
  with assms have "nextOffset q \<noteq> MaxInt64" by simp
  from sint_Suc [OF this] assms NextOffsetOp show ?thesis
    by (auto simp: NextOffset_def word_sle_eq)
next
  case (AdvanceHeadOffsetOp h)
  with assms show ?thesis by (auto simp: AdvanceHeadOffset_next AdvanceHeadOffset_head)
next
  case (AckOp i off)
  with assms show ?thesis
    by (auto simp: Ack_def ack_fields split: if_splits outcome.splits)
next
  case (NewCursorAckerOp a)
  with assms step_NewCursorAcker_fields [of a q q'] show ?thesis by simp
next
  case (WaitForCommitOffsetAsyncOp off f)
  with assms show ?thesis by (auto simp: WaitForCommitOffsetAsync_fields)
next
  case CloseOp
  with assms show ?thesis by (auto simp: Close_def)
qed

lemma head_le_next_run:
  "headOffset q <=s nextOffset q \<Longrightarrow> reserved xs q \<Longrightarrow> run xs q = Some q' \<Longrightarrow>
   headOffset q' <=s nextOffset q'"
proof (induction xs arbitrary: q)
  case Nil
  then show ?case by simp
next
  case (Cons x xs)
  from Cons.prems(3) obtain q1 where s: "step x q = Some q1" and r: "run xs q1 = Some q'"
    by (auto split: option.splits)
  from Cons.prems(2) s have g: "case x of
           AdvanceHeadOffsetOp h \<Rightarrow> h <=s nextOffset q
         | NextOffsetOp \<Rightarrow> nextOffset q \<noteq> MaxInt64
         | _ \<Rightarrow> True"
    and r1: "reserved xs q1" by simp_all
  have "headOffset q1 <=s nextOffset q1"
    using Cons.prems(1) s g by (rule head_le_next_step)
  then show ?case using r1 r by (rule Cons.IH)
qed

text \<open>
  C2, as the code has it. Right after \<open>NewQuorumAckTracker\<close> the field \<open>nextOffset\<close> equals
  \<open>headOffset\<close>: it holds the last offset handed out, not the next one. So the order that
  holds is without the \<open>- 1\<close>, and it holds as long as \<open>nextOffset\<close> does not wrap around.
  For a tracker whose construction with \<open>commit \<le> head\<close> returns, and every state \<open>q\<close>
  reached from it by a run of calls that return: \<open>commitOffset \<le> headOffset\<close>; and
  \<open>headOffset \<le> nextOffset\<close> when every \<open>AdvanceHeadOffset\<close> of the run was called with an
  offset that \<open>NextOffset\<close> had handed out (at most \<open>nextOffset\<close>) and \<open>NextOffset\<close> was never
  called with \<open>nextOffset = MaxInt64\<close>.
\<close>

theorem commit_le_head_le_next:
  assumes "c <=s h" and "NewQuorumAckTracker rf h c = Some q0" and "run xs q0 = Some q"
  shows "commitOffset q <=s headOffset q \<and>
         nextOffset q0 = headOffset q0 \<and>
         (reserved xs q0 \<longrightarrow> headOffset q <=s nextOffset q)"
proof -
  have "tracker_inv q"
    using tracker_inv_init [OF assms(1,2)] assms(3) by (rule tracker_inv_run)
  moreover have e: "nextOffset q0 = headOffset q0"
    using assms(2) by (rule NewQuorumAckTracker_next)
  moreover have "reserved xs q0 \<longrightarrow> headOffset q <=s nextOffset q"
    using head_le_next_run [OF _ _ assms(3)] e by simp
  ultimately show ?thesis by (simp add: tracker_inv_def)
qed

text \<open>
  An instance: replication factor 3, one offset reserved, written and acked by the first
  cursor.
\<close>

theorem commit_le_head_le_next_witness:
  "(0::int64) <=s 0 \<and>
   NewQuorumAckTracker 3 0 0 \<noteq> None \<and>
   run [NextOffsetOp, AdvanceHeadOffsetOp 1, NewCursorAckerOp 0, AckOp 0 1]
     (the (NewQuorumAckTracker 3 0 0))
     = Some \<lparr> waitingRequests = [], waitForHeadOffset = 1, replicationFactor = 3,
       requiredAcks = 1, nextOffset = 1, headOffset = 1, commitOffset = 1,
       tracker = Map.empty,
       cursorIdxGenerator = 1, closed = False, invoked = [] \<rparr> \<and>
   reserved [NextOffsetOp, AdvanceHeadOffsetOp 1, NewCursorAckerOp 0, AckOp 0 1]
     (the (NewQuorumAckTracker 3 0 0)) \<and>
   commitOffset \<lparr> waitingRequests = [], waitForHeadOffset = 1, replicationFactor = 3,
       requiredAcks = 1, nextOffset = 1, headOffset = 1, commitOffset = 1,
       tracker = Map.empty,
       cursorIdxGenerator = 1, closed = False, invoked = [] \<rparr>
     <=s headOffset \<lparr> waitingRequests = [], waitForHeadOffset = 1, replicationFactor = 3,
       requiredAcks = 1, nextOffset = 1, headOffset = 1, commitOffset = 1,
       tracker = Map.empty,
       cursorIdxGenerator = 1, closed = False, invoked = [] \<rparr> \<and>
   headOffset \<lparr> waitingRequests = [], waitForHeadOffset = 1, replicationFactor = 3,
       requiredAcks = 1, nextOffset = 1, headOffset = 1, commitOffset = 1,
       tracker = Map.empty,
       cursorIdxGenerator = 1, closed = False, invoked = [] \<rparr>
     <=s nextOffset \<lparr> waitingRequests = [], waitForHeadOffset = 1, replicationFactor = 3,
       requiredAcks = 1, nextOffset = 1, headOffset = 1, commitOffset = 1,
       tracker = Map.empty,
       cursorIdxGenerator = 1, closed = False, invoked = [] \<rparr>"
proof -
  let ?xs = "[NextOffsetOp, AdvanceHeadOffsetOp 1, NewCursorAckerOp 0, AckOp 0 1]"
  let ?Q = "\<lparr> waitingRequests = [], waitForHeadOffset = 1, replicationFactor = 3,
       requiredAcks = 1, nextOffset = 1, headOffset = 1, commitOffset = 1,
       tracker = Map.empty,
       cursorIdxGenerator = 1, closed = False, invoked = [] \<rparr>"
  have h: "(0::int64) <=s 0" by simp
  have n: "NewQuorumAckTracker 3 0 0 = Some (the (NewQuorumAckTracker 3 0 0))"
    by (simp add: NewQuorumAckTracker_eq MaxInt64_def)
  have r: "run ?xs (the (NewQuorumAckTracker 3 0 0)) = Some ?Q"
    by (simp add: eval_simps) (auto simp: fun_eq_iff)
  have s: "reserved ?xs (the (NewQuorumAckTracker 3 0 0))"
    by (simp add: eval_simps)
  from commit_le_head_le_next [OF h n r] h n r s show ?thesis by auto
qed

text \<open>
  The invariant as the specification words it fails in the state right after the
  construction (\<open>headOffset = nextOffset = 0\<close>), and it fails again when the head is advanced
  beyond the offsets handed out.
\<close>

theorem offsets_ordered_counterexample:
  "NewQuorumAckTracker 3 0 0 \<noteq> None \<and>
   \<not> offsets_ordered (the (NewQuorumAckTracker 3 0 0)) \<and>
   headOffset (the (NewQuorumAckTracker 3 0 0)) = 0 \<and>
   nextOffset (the (NewQuorumAckTracker 3 0 0)) - 1 = - 1 \<and>
   \<not> offsets_ordered (AdvanceHeadOffset 5 (snd (NextOffset (the (NewQuorumAckTracker 3 0 0)))))"
  by (simp add: offsets_ordered_def eval_simps)

section \<open>Monotonicity of the offsets\<close>

lemma step_headOffset_mono: "step x q = Some q' \<Longrightarrow> headOffset q <=s headOffset q'"
proof (cases x)
  case (NewCursorAckerOp a)
  assume "step x q = Some q'"
  with NewCursorAckerOp step_NewCursorAcker_fields [of a q q'] show ?thesis by simp
next
  case (AdvanceHeadOffsetOp h)
  assume "step x q = Some q'"
  with AdvanceHeadOffsetOp show ?thesis
    by (auto simp: AdvanceHeadOffset_head word_sle_eq)
qed (auto simp: NextOffset_def Ack_def ack_fields WaitForCommitOffsetAsync_fields Close_def
       split: if_splits outcome.splits)

lemma ack_commitOffset:
  "ack i off q = Returns q' \<Longrightarrow> commitOffset q' = commitOffset q \<or> commitOffset q' = off"
  using ack_cases [of i off q] by (auto simp: notifyCommitOffsetAdvanced_eq)

lemma acks_commitOffset_lower_bound:
  assumes "\<forall>p \<in> set ps. c <s snd p" and "c <=s commitOffset q" and "acks ps q = Returns q'"
  shows "c <=s commitOffset q'"
  using assms
proof (induction ps arbitrary: q)
  case Nil
  then show ?case by simp
next
  case (Cons p ps)
  from Cons.prems(3) obtain q1 where a: "ack (fst p) (snd p) q = Returns q1"
    and r: "acks ps q1 = Returns q'"
    by (auto simp: Ack_def split: outcome.splits)
  from ack_commitOffset [OF a] Cons.prems(1,2) have "c <=s commitOffset q1"
    by (auto simp: word_sle_eq word_sless_alt)
  with Cons.prems(1) r show ?case by (auto intro: Cons.IH)
qed

lemma offsets_between_set:
  assumes "c \<noteq> MaxInt64"
  shows "set (offsets_between (c + 1) a) = {x. c <s x \<and> x <=s a}"
proof -
  have "x \<in> set (offsets_between (c + 1) a)" if "c <s x" "x <=s a" for x
  proof -
    have "sint x \<in> set [sint (c + 1)..sint a]"
      using that by (simp add: sint_Suc [OF assms] word_sle_eq word_sless_alt)
    then have "word_of_int (sint x) \<in> set (offsets_between (c + 1) a)"
      unfolding offsets_between_def by (simp only: set_map image_eqI [OF refl])
    then show ?thesis by simp
  qed
  moreover have "c <s x \<and> x <=s a" if "x \<in> set (offsets_between (c + 1) a)" for x
  proof -
    from that obtain k where k: "sint c + 1 \<le> k" "k \<le> sint a" and x: "x = word_of_int k"
      by (auto simp: offsets_between_def sint_Suc [OF assms])
    have "- 9223372036854775808 \<le> k" using k(1) sint_ge [of c] by simp
    moreover have "k \<le> 9223372036854775807" using k(2) sint_lt [of a] by simp
    ultimately have "sint x = k" using x by (simp add: sint_word_of_int64)
    with k show ?thesis by (simp add: word_sle_eq word_sless_alt)
  qed
  ultimately show ?thesis by blast
qed

text \<open>
  What does hold: \<open>headOffset\<close> never decreases, whatever the call; and from a state with
  \<open>commitOffset \<le> headOffset\<close> and \<open>commitOffset\<close> below \<open>MaxInt64\<close> no call other than \<open>Ack\<close>
  decreases \<open>commitOffset\<close>.
\<close>

lemma step_commitOffset_mono_except_Ack:
  assumes "tracker_inv q" and "step x q = Some q'" and "\<forall>i off. x \<noteq> AckOp i off"
    and "commitOffset q \<noteq> MaxInt64"
  shows "commitOffset q <=s commitOffset q'"
proof (cases x)
  case NextOffsetOp
  with assms show ?thesis by (auto simp: NextOffset_def)
next
  case (AdvanceHeadOffsetOp h)
  with assms show ?thesis
    by (auto simp: AdvanceHeadOffset_def Let_def notifyCommitOffsetAdvanced_eq tracker_inv_def
          word_sle_eq)
next
  case (AckOp i off)
  with assms show ?thesis by simp
next
  case (NewCursorAckerOp a)
  from assms(2) NewCursorAckerOp consider "q' = q"
    | i where "NewCursorAcker a q = Some (Returns (Inr (i, q')))"
    by (auto split: option.splits outcome.splits sum.splits)
  then show ?thesis
  proof cases
    case 1
    then show ?thesis by simp
  next
    case 2
    from NewCursorAcker_Inr [OF 2] obtain q1 where
      e: "acks (map (Pair i) (offsets_between (commitOffset q + 1) a)) q = Returns q1"
      and q': "q' = q1\<lparr>cursorIdxGenerator := cursorIdxGenerator q + 1\<rparr>" by blast
    have "\<forall>p \<in> set (map (Pair i) (offsets_between (commitOffset q + 1) a)). commitOffset q <s snd p"
      using offsets_between_set [OF assms(4), of a] by auto
    from acks_commitOffset_lower_bound [OF this _ e] q' show ?thesis by simp
  qed
next
  case (WaitForCommitOffsetAsyncOp off f)
  with assms show ?thesis by (auto simp: WaitForCommitOffsetAsync_fields)
next
  case CloseOp
  with assms show ?thesis by (auto simp: Close_def)
qed

text \<open>
  C1 asks that no call of \<open>AdvanceHeadOffset\<close>, \<open>Ack\<close>, \<open>NewCursorAcker\<close> or \<open>Close\<close> ever
  decreases \<open>commitOffset\<close> or \<open>headOffset\<close>, also when offsets reach the ack threshold out
  of order. The code at such a run: replication factor 3, the head advanced to 1 and then
  to 2, one cursor. The cursor acks offset 2 and \<open>commitOffset\<close> becomes 2; it then acks
  offset 1 and \<open>commitOffset\<close> becomes 1.
\<close>

theorem Ack_out_of_order_lowers_commitOffset:
  "map_option commitOffset
     (start 3 0 0 [AdvanceHeadOffsetOp 1, AdvanceHeadOffsetOp 2, NewCursorAckerOp 0, AckOp 0 2])
     = Some 2 \<and>
   map_option commitOffset
     (start 3 0 0 [AdvanceHeadOffsetOp 1, AdvanceHeadOffsetOp 2, NewCursorAckerOp 0, AckOp 0 2,
        AckOp 0 1])
     = Some 1"
  by (simp add: eval_simps)

section \<open>Waiting for the head offset\<close>

lemma WaitForHeadOffset_returns_nil:
  "closed q \<or> off <=s headOffset q \<Longrightarrow> WaitForHeadOffset off q ws = Some None"
  by (auto simp: word_sle_eq word_sless_alt)

lemma WaitForHeadOffset_cancelled:
  "\<not> closed q \<Longrightarrow> headOffset q <s off \<Longrightarrow>
   WaitForHeadOffset off q (Cancelled err # ws) = Some (Some err)"
  by simp

text \<open>An error that \<open>WaitForHeadOffset\<close> returns is the cause of a cancelled wait.\<close>

lemma WaitForHeadOffset_error_is_cause:
  "WaitForHeadOffset off q ws = Some (Some err) \<Longrightarrow> Cancelled err \<in> set ws"
proof (induction ws arbitrary: q)
  case Nil
  then show ?case by (simp split: if_splits)
next
  case (Cons w ws)
  then show ?case by (cases w) (auto split: if_splits)
qed

text \<open>
  C3 asks that \<open>WaitForHeadOffset(ctx, x)\<close> returns the error \<open>AlreadyClosed\<close> when the
  tracker is closed before \<open>headOffset\<close> reaches \<open>x\<close>. The code at such inputs: the head
  offset is 0 and the call waits for offset 5. When the tracker is closed already, and
  when it is closed while the call waits, the call returns \<open>nil\<close>.
\<close>

theorem WaitForHeadOffset_closed_returns_nil:
  "NewQuorumAckTracker 3 0 0 \<noteq> None \<and>
   headOffset (snd (Close (the (NewQuorumAckTracker 3 0 0)))) = 0 \<and>
   closed (snd (Close (the (NewQuorumAckTracker 3 0 0)))) \<and>
   WaitForHeadOffset 5 (snd (Close (the (NewQuorumAckTracker 3 0 0)))) [] = Some None \<and>
   WaitForHeadOffset 5 (the (NewQuorumAckTracker 3 0 0)) [] = None \<and>
   WaitForHeadOffset 5 (the (NewQuorumAckTracker 3 0 0))
     [Woken (snd (Close (the (NewQuorumAckTracker 3 0 0))))] = Some None"
  by (simp add: eval_simps)

section \<open>Idempotence of the ack path\<close>

lemma ack_absent: "tracker q off = None \<Longrightarrow> ack i off q = Returns q"
  by (simp add: ack_def)

lemma ack_settled_noop: "settled (i, off) q \<Longrightarrow> ack i off q = Returns q"
  by (auto simp: settled_def ack_def Let_def BitSet_Set_def in_capacity_def insert_absorb
        map_upd_triv split: option.splits)

lemma ack_makes_settled: "ack i off q = Returns q' \<Longrightarrow> settled (i, off) q'"
  using ack_cases [of i off q]
  by (auto simp: settled_def notifyCommitOffsetAdvanced_eq in_capacity_def BitSet_capacity_def)

lemma ack_preserves_settled:
  assumes "settled p q" and "ack i off q = Returns q'"
  shows "settled p q'"
proof (cases "snd p = off")
  case True
  with assms ack_cases [of i off q] show ?thesis
    by (auto simp: settled_def notifyCommitOffsetAdvanced_eq in_capacity_def BitSet_capacity_def
          split: option.splits)
next
  case False
  with assms ack_cases [of i off q] show ?thesis
    by (auto simp: settled_def notifyCommitOffsetAdvanced_eq in_capacity_def BitSet_capacity_def
          split: option.splits)
qed

lemma ack_idem: "ack i off q = Returns q' \<Longrightarrow> ack i off q' = Returns q'"
  by (rule ack_settled_noop) (rule ack_makes_settled)

lemma acks_filter_settled:
  "settled x q \<Longrightarrow> acks (filter (\<lambda>y. y \<noteq> x) ps) q = acks ps q"
proof (induction ps arbitrary: q)
  case Nil
  show ?case by simp
next
  case (Cons p ps)
  show ?case
  proof (cases "p = x")
    case True
    have "Ack (fst x) (snd x) q = Returns q"
      using Cons.prems ack_settled_noop [of "fst x" "snd x" q] by (simp add: Ack_def)
    with True Cons.IH [OF Cons.prems] show ?thesis by simp
  next
    case False
    show ?thesis
    proof (cases "Ack (fst p) (snd p) q")
      case (Returns q1)
      then have "settled x q1"
        using Cons.prems by (simp add: Ack_def ack_preserves_settled)
      from Cons.IH [OF this] False Returns show ?thesis by simp
    next
      case OutOfCapacity
      with False show ?thesis by simp
    qed
  qed
qed

lemma acks_drop_repeats: "acks (drop_repeats ps) q = acks ps q"
proof (induction ps arbitrary: q rule: drop_repeats.induct)
  case 1
  show ?case by simp
next
  case (2 x xs)
  show ?case
  proof (cases "Ack (fst x) (snd x) q")
    case (Returns q1)
    then have s: "settled x q1"
      using ack_makes_settled [of "fst x" "snd x" q q1] by (simp add: Ack_def)
    have "acks (drop_repeats (x # xs)) q = acks (drop_repeats (filter (\<lambda>y. y \<noteq> x) xs)) q1"
      using Returns by simp
    also have "\<dots> = acks (filter (\<lambda>y. y \<noteq> x) xs) q1"
      by (rule "2.IH")
    also have "\<dots> = acks xs q1"
      using s by (rule acks_filter_settled)
    finally show ?thesis using Returns by simp
  next
    case OutOfCapacity
    then show ?thesis by simp
  qed
qed

lemma set_drop_repeats: "set (drop_repeats xs) = set xs"
  by (induction xs rule: drop_repeats.induct) auto

lemma distinct_drop_repeats: "distinct (drop_repeats xs)"
  by (induction xs rule: drop_repeats.induct) (auto simp: set_drop_repeats)

text \<open>
  What does hold of the ack path. \<open>Ack\<close> of a cursor for an offset, done again after it
  returned, leaves the state as it is, and \<open>Ack\<close> for an offset that has no entry in the
  tracker map leaves the state as it is. Hence the result of a sequence of acks does not
  depend on how many times a pair of cursor and offset is acked: the sequence without its
  repeated pairs has the same result.
\<close>

lemma ack_idempotent:
  "(Ack i off q = Returns q' \<longrightarrow> Ack i off q' = Returns q') \<and>
   (tracker q off = None \<longrightarrow> Ack i off q = Returns q) \<and>
   acks ps q = acks (drop_repeats ps) q \<and>
   set (drop_repeats ps) = set ps \<and> distinct (drop_repeats ps)"
  by (simp add: Ack_def ack_idem ack_absent acks_drop_repeats set_drop_repeats
        distinct_drop_repeats)

text \<open>
  C7 asks that the final \<open>commitOffset\<close> is a function of the set of the pairs of cursor
  and offset that were acked. The code at two runs that ack the same pairs, once each:
  replication factor 3, the head advanced to 1 and then to 2, one cursor. When the cursor
  acks offset 1 and then offset 2 the final \<open>commitOffset\<close> is 2; when it acks offset 2 and
  then offset 1 it is 1, because the second ack stores the lower offset.
\<close>

theorem commitOffset_depends_on_order:
  "set [(0::int, 1::int64), (0, 2)] = set [(0, 2), (0, 1)] \<and>
   map_option commitOffset
     (start 3 0 0 [AdvanceHeadOffsetOp 1, AdvanceHeadOffsetOp 2, NewCursorAckerOp 0,
        AckOp 0 1, AckOp 0 2]) = Some 2 \<and>
   map_option commitOffset
     (start 3 0 0 [AdvanceHeadOffsetOp 1, AdvanceHeadOffsetOp 2, NewCursorAckerOp 0,
        AckOp 0 2, AckOp 0 1]) = Some 1"
  by (simp add: eval_simps insert_commute)

section \<open>Registering a cursor\<close>

lemma Ack_eq:
  "Ack i off q =
     (case tracker q off of
        None \<Rightarrow> Returns q
      | Some e \<Rightarrow>
          if \<not> in_capacity i q then OutOfCapacity
          else if (word_of_int (int (card (insert i e))) :: uint32) = requiredAcks q
          then Returns
                 (q\<lparr>tracker := (tracker q)(off := None),
                    commitOffset := off,
                    waitingRequests := dropWhile (due off) (waitingRequests q),
                    invoked := invoked q @
                      map (\<lambda>r. (closure r, None)) (takeWhile (due off) (waitingRequests q))\<rparr>)
          else Returns (q\<lparr>tracker := (tracker q)(off \<mapsto> insert i e)\<rparr>))"
  by (auto simp: Ack_def ack_def Let_def BitSet_Set_def BitSet_Count_def in_capacity_def
        notifyCommitOffsetAdvanced_eq split: option.splits)

text \<open>
  For a replication factor other than 0 and a generator within the 32 bits, the guard in
  \<open>uint32\<close> arithmetic is the comparison of the integers.
\<close>

lemma guard_as_integers:
  fixes rf :: uint32
  assumes "rf \<noteq> 0" and "0 \<le> g" and "g < 2 ^ 32"
  shows "(rf - 1 \<le> (word_of_int g :: uint32)) = (uint rf - 1 \<le> g)"
proof -
  have "uint (word_of_int g :: uint32) = g"
    using assms(2,3) by (simp add: uint_word_of_int take_bit_int_eq_self)
  moreover have "uint (rf - 1) = uint rf - 1"
  proof -
    have "\<not> rf < 1" using assms(1) by simp
    then have "uint (1 :: uint32) \<le> uint rf" by (simp add: word_less_def)
    then show ?thesis using uint_sub_lem [of 1 rf] by simp
  qed
  ultimately show ?thesis by (simp add: word_le_def)
qed

text \<open>With replication factor 0 the bound of the guard wraps around to \<open>2^32 - 1\<close>.\<close>

lemma guard_replicationFactor_0:
  "((0::uint32) - 1 \<le> word_of_int g) = (g mod 2 ^ 32 = 2 ^ 32 - 1)"
proof -
  have "((0::uint32) - 1 \<le> word_of_int g) = ((word_of_int g :: uint32) = - 1)"
    by (simp add: word_order.extremum_unique)
  also have "\<dots> = (uint (word_of_int g :: uint32) = uint (- 1 :: uint32))"
    by (rule word_uint_eq_iff)
  also have "\<dots> = (g mod 2 ^ 32 = 2 ^ 32 - 1)"
    by (simp add: uint_word_of_int unsigned_minus_1_eq_mask mask_eq_exp_minus_1)
  finally show ?thesis .
qed

lemma acks_in_capacity:
  "\<forall>p \<in> set ps. in_capacity (fst p) q \<Longrightarrow> \<exists>q'. acks ps q = Returns q'"
proof (induction ps arbitrary: q)
  case Nil
  show ?case by simp
next
  case (Cons p ps)
  from Cons.prems obtain q1 where a: "ack (fst p) (snd p) q = Returns q1"
    using ack_in_capacity_Returns [of "fst p" q "snd p"] by auto
  have "\<forall>p \<in> set ps. in_capacity (fst p) q1"
    using Cons.prems ack_in_capacity [OF a] by simp
  from Cons.IH [OF this] a show ?case by (simp add: Ack_def)
qed

lemma acks_untracked:
  "\<forall>p \<in> set ps. tracker q (snd p) = None \<Longrightarrow> acks ps q = Returns q"
  by (induction ps) (simp_all add: Ack_def ack_absent)

lemma offsets_between_increasing: "sorted_wrt (<s) (offsets_between lo hi)"
proof -
  have "sint (word_of_int x :: int64) = x" if "x \<in> set [sint lo..sint hi]" for x
  proof -
    have "- 9223372036854775808 \<le> x" using that sint_ge [of lo] by simp
    moreover have "x \<le> 9223372036854775807" using that sint_lt [of hi] by simp
    ultimately show ?thesis by (rule sint_word_of_int64)
  qed
  then have "sorted_wrt (\<lambda>x y. (word_of_int x :: int64) <s word_of_int y) [sint lo..sint hi]"
    by (intro sorted_wrt_mono_rel [OF _ sorted_wrt_upto]) (simp add: word_sless_alt)
  then show ?thesis by (simp add: offsets_between_def sorted_wrt_map)
qed

lemma NewCursorAcker_eq:
  "NewCursorAcker a q =
     (if replicationFactor q - 1 \<le> (word_of_int (cursorIdxGenerator q) :: uint32)
      then Some (Returns (Inl ErrTooManyCursors))
      else if headOffset q <s a then Some (Returns (Inl ErrInvalidHeadOffset))
      else case NewCursorAcker_loop (cursorIdxGenerator q) (commitOffset q + 1) a q of
             None \<Rightarrow> None
           | Some OutOfCapacity \<Rightarrow> Some OutOfCapacity
           | Some (Returns q1) \<Rightarrow>
               Some (Returns (Inr (cursorIdxGenerator q,
                                   q1\<lparr>cursorIdxGenerator := cursorIdxGenerator q + 1\<rparr>))))"
proof -
  have "cursorIdxGenerator q1 = cursorIdxGenerator q"
    if "NewCursorAcker_loop (cursorIdxGenerator q) (commitOffset q + 1) a q = Some (Returns q1)"
    for q1
  proof -
    from NewCursorAcker_loop_Returns [OF that] have a: "a \<noteq> MaxInt64" by auto
    from that NewCursorAcker_loop_eq [OF a, of "cursorIdxGenerator q" "commitOffset q + 1" q]
    have "acks (map (Pair (cursorIdxGenerator q)) (offsets_between (commitOffset q + 1) a)) q =
        Returns q1" by simp
    from acks_fields [OF this] show ?thesis by simp
  qed
  then show ?thesis
    by (auto simp: NewCursorAcker_def split: option.splits outcome.splits)
qed

text \<open>
  C6, as the code has it. \<open>NewCursorAcker ackOffset\<close> returns \<open>ErrTooManyCursors\<close> if and only
  if \<open>uint32(cursorIdxGenerator) \<ge> replicationFactor - 1\<close>, the subtraction being the one of
  \<open>uint32\<close> (for a replication factor other than 0 and a generator within 32 bits this is
  the comparison of the integers); otherwise it returns \<open>ErrInvalidHeadOffset\<close> if and only if
  \<open>ackOffset > headOffset\<close>. Otherwise, when \<open>ackOffset\<close> is below \<open>MaxInt64\<close>, it applies \<open>Ack\<close> of
  the new cursor, in increasing order, to the offsets from \<open>commitOffset + 1\<close> up to
  \<open>ackOffset\<close>, which are the offsets of \<open>(commitOffset, ackOffset]\<close> when \<open>commitOffset\<close> is
  below \<open>MaxInt64\<close>, and then returns the cursor with the index \<open>cursorIdxGenerator\<close> and
  increases the generator by one; every one of these acks has a result when the
  replication factor is not 0 and the generator is within 32 bits, the index being within
  the capacity of the bitsets. When \<open>ackOffset\<close> is \<open>MaxInt64\<close> the call returns no value.
  \<open>Ack\<close> of an offset that has an entry sets the bit of the cursor; when the count then
  equals \<open>requiredAcks\<close> the entry is removed, the offset is stored into \<open>commitOffset\<close> and the
  waiting requests that are due are served.
\<close>

theorem NewCursorAcker_result:
  "(NewCursorAcker ackOffset q = Some (Returns (Inl ErrTooManyCursors))) =
     (replicationFactor q - 1 \<le> (word_of_int (cursorIdxGenerator q) :: uint32)) \<and>
   (replicationFactor q \<noteq> 0 \<and> 0 \<le> cursorIdxGenerator q \<and> cursorIdxGenerator q < 2 ^ 32 \<longrightarrow>
      (NewCursorAcker ackOffset q = Some (Returns (Inl ErrTooManyCursors))) =
        (uint (replicationFactor q) - 1 \<le> cursorIdxGenerator q)) \<and>
   (NewCursorAcker ackOffset q = Some (Returns (Inl ErrInvalidHeadOffset))) =
     (\<not> replicationFactor q - 1 \<le> (word_of_int (cursorIdxGenerator q) :: uint32) \<and>
      headOffset q <s ackOffset) \<and>
   (\<not> replicationFactor q - 1 \<le> (word_of_int (cursorIdxGenerator q) :: uint32) \<and>
    \<not> headOffset q <s ackOffset \<longrightarrow>
      (ackOffset \<noteq> MaxInt64 \<longrightarrow>
         NewCursorAcker ackOffset q =
           (case acks (map (Pair (cursorIdxGenerator q))
                         (offsets_between (commitOffset q + 1) ackOffset)) q of
              OutOfCapacity \<Rightarrow> Some OutOfCapacity
            | Returns q1 \<Rightarrow>
                Some (Returns (Inr (cursorIdxGenerator q,
                                    q1\<lparr>cursorIdxGenerator := cursorIdxGenerator q + 1\<rparr>))))) \<and>
      (ackOffset = MaxInt64 \<longrightarrow> (\<forall>r. NewCursorAcker ackOffset q \<noteq> Some (Returns r))) \<and>
      (replicationFactor q \<noteq> 0 \<and> 0 \<le> cursorIdxGenerator q \<and> cursorIdxGenerator q < 2 ^ 32 \<longrightarrow>
         in_capacity (cursorIdxGenerator q) q \<and>
         (\<exists>q1. acks (map (Pair (cursorIdxGenerator q))
                        (offsets_between (commitOffset q + 1) ackOffset)) q = Returns q1))) \<and>
   (commitOffset q \<noteq> MaxInt64 \<longrightarrow>
      set (offsets_between (commitOffset q + 1) ackOffset) =
        {x. commitOffset q <s x \<and> x <=s ackOffset}) \<and>
   sorted_wrt (<s) (offsets_between (commitOffset q + 1) ackOffset) \<and>
   acks (p # ps) q =
     (case Ack (fst p) (snd p) q of OutOfCapacity \<Rightarrow> OutOfCapacity | Returns q' \<Rightarrow> acks ps q') \<and>
   acks [] q = Returns q \<and>
   Ack i off q =
     (case tracker q off of
        None \<Rightarrow> Returns q
      | Some e \<Rightarrow>
          if \<not> in_capacity i q then OutOfCapacity
          else if (word_of_int (int (card (insert i e))) :: uint32) = requiredAcks q
          then Returns
                 (q\<lparr>tracker := (tracker q)(off := None),
                    commitOffset := off,
                    waitingRequests := dropWhile (due off) (waitingRequests q),
                    invoked := invoked q @
                      map (\<lambda>r. (closure r, None)) (takeWhile (due off) (waitingRequests q))\<rparr>)
          else Returns (q\<lparr>tracker := (tracker q)(off \<mapsto> insert i e)\<rparr>))"
proof -
  let ?g = "replicationFactor q - 1 \<le> (word_of_int (cursorIdxGenerator q) :: uint32)"
  let ?ps = "map (Pair (cursorIdxGenerator q)) (offsets_between (commitOffset q + 1) ackOffset)"
  have a: "(NewCursorAcker ackOffset q = Some (Returns (Inl ErrTooManyCursors))) = ?g"
    by (auto simp: NewCursorAcker_eq split: option.splits outcome.splits)
  have b: "(NewCursorAcker ackOffset q = Some (Returns (Inl ErrInvalidHeadOffset))) =
      (\<not> ?g \<and> headOffset q <s ackOffset)"
    by (auto simp: NewCursorAcker_eq split: option.splits outcome.splits)
  have c: "NewCursorAcker ackOffset q =
      (case acks ?ps q of
         OutOfCapacity \<Rightarrow> Some OutOfCapacity
       | Returns q1 \<Rightarrow>
           Some (Returns (Inr (cursorIdxGenerator q,
                               q1\<lparr>cursorIdxGenerator := cursorIdxGenerator q + 1\<rparr>))))"
    if "\<not> ?g" "\<not> headOffset q <s ackOffset" "ackOffset \<noteq> MaxInt64"
    using that by (simp add: NewCursorAcker_eq NewCursorAcker_loop_eq split: outcome.splits)
  have d: "NewCursorAcker ackOffset q \<noteq> Some (Returns r)"
    if "\<not> ?g" "\<not> headOffset q <s ackOffset" "ackOffset = MaxInt64" for r
    using that
      NewCursorAcker_loop_Returns [of "cursorIdxGenerator q" "commitOffset q + 1" ackOffset q]
    by (auto simp: NewCursorAcker_eq split: option.splits outcome.splits)
  have e: "in_capacity (cursorIdxGenerator q) q \<and> (\<exists>q1. acks ?ps q = Returns q1)"
    if "\<not> ?g" "replicationFactor q \<noteq> 0" "0 \<le> cursorIdxGenerator q"
      "cursorIdxGenerator q < 2 ^ 32"
  proof -
    from that guard_as_integers [of "replicationFactor q" "cursorIdxGenerator q"]
    have i: "in_capacity (cursorIdxGenerator q) q"
      by (simp add: in_capacity_def BitSet_capacity_def)
    then have "\<forall>p \<in> set ?ps. in_capacity (fst p) q" by auto
    from acks_in_capacity [OF this] i show ?thesis by simp
  qed
  have c2: "replicationFactor q \<noteq> 0 \<and> 0 \<le> cursorIdxGenerator q \<and> cursorIdxGenerator q < 2 ^ 32 \<longrightarrow>
      (NewCursorAcker ackOffset q = Some (Returns (Inl ErrTooManyCursors))) =
        (uint (replicationFactor q) - 1 \<le> cursorIdxGenerator q)"
    using a guard_as_integers [of "replicationFactor q" "cursorIdxGenerator q"] by simp
  have c4: "\<not> ?g \<and> \<not> headOffset q <s ackOffset \<longrightarrow>
      (ackOffset \<noteq> MaxInt64 \<longrightarrow>
         NewCursorAcker ackOffset q =
           (case acks ?ps q of
              OutOfCapacity \<Rightarrow> Some OutOfCapacity
            | Returns q1 \<Rightarrow>
                Some (Returns (Inr (cursorIdxGenerator q,
                                    q1\<lparr>cursorIdxGenerator := cursorIdxGenerator q + 1\<rparr>))))) \<and>
      (ackOffset = MaxInt64 \<longrightarrow> (\<forall>r. NewCursorAcker ackOffset q \<noteq> Some (Returns r))) \<and>
      (replicationFactor q \<noteq> 0 \<and> 0 \<le> cursorIdxGenerator q \<and> cursorIdxGenerator q < 2 ^ 32 \<longrightarrow>
         in_capacity (cursorIdxGenerator q) q \<and> (\<exists>q1. acks ?ps q = Returns q1))"
    using c d e by blast
  have c5: "commitOffset q \<noteq> MaxInt64 \<longrightarrow>
      set (offsets_between (commitOffset q + 1) ackOffset) =
        {x. commitOffset q <s x \<and> x <=s ackOffset}"
    using offsets_between_set [of "commitOffset q" ackOffset] by blast
  show ?thesis
    by (intro conjI)
       (fact a, fact c2, fact b, fact c4, fact c5, fact offsets_between_increasing,
        simp, simp, fact Ack_eq)
qed

text \<open>
  Instances, with replication factor 3, head offset 10 and commit offset 5: an ack offset
  beyond the head is refused; a third cursor is refused; the first cursor, registered at
  offset 8, gets the index 0 and commits the offsets 6, 7 and 8.
\<close>

theorem NewCursorAcker_result_witness:
  "NewQuorumAckTracker 3 10 5 \<noteq> None \<and>
   NewCursorAcker 11 (the (NewQuorumAckTracker 3 10 5)) = Some (Returns (Inl ErrInvalidHeadOffset)) \<and>
   NewCursorAcker 8 ((the (NewQuorumAckTracker 3 10 5))\<lparr>cursorIdxGenerator := 2\<rparr>) =
     Some (Returns (Inl ErrTooManyCursors)) \<and>
   (\<exists>q1. NewCursorAcker 8 (the (NewQuorumAckTracker 3 10 5)) = Some (Returns (Inr (0, q1))) \<and>
         commitOffset q1 = 8 \<and> cursorIdxGenerator q1 = 1)"
proof -
  let ?q = "the (NewQuorumAckTracker 3 10 5)"
  have n: "NewQuorumAckTracker 3 10 5 \<noteq> None"
    by (simp add: NewQuorumAckTracker_eq MaxInt64_def)
  have a: "NewCursorAcker 11 ?q = Some (Returns (Inl ErrInvalidHeadOffset))"
    using NewCursorAcker_result [of 11 ?q]
    by (simp add: NewQuorumAckTracker_eq MaxInt64_def word_sless_alt word_le_nat_alt)
  have b: "NewCursorAcker 8 (?q\<lparr>cursorIdxGenerator := 2\<rparr>) = Some (Returns (Inl ErrTooManyCursors))"
    using NewCursorAcker_result [of 8 "?q\<lparr>cursorIdxGenerator := 2\<rparr>"]
    by (simp add: NewQuorumAckTracker_eq MaxInt64_def word_le_nat_alt)
  have g: "\<not> replicationFactor ?q - 1 \<le> (word_of_int (cursorIdxGenerator ?q) :: uint32)"
    "\<not> headOffset ?q <s 8" "(8::int64) \<noteq> MaxInt64"
    by (simp_all add: NewQuorumAckTracker_eq MaxInt64_def word_sless_alt word_le_nat_alt)
  have e: "acks (map (Pair (cursorIdxGenerator ?q)) (offsets_between (commitOffset ?q + 1) 8)) ?q =
      Returns (?q\<lparr>commitOffset := 8,
                   tracker := (\<lambda>x. if 9 <=s x \<and> x <=s 10 then Some {} else None)\<rparr>)"
    apply (simp add: NewQuorumAckTracker_eq MaxInt64_def offsets_between_def Ack_def ack_def
        BitSet_Set_def BitSet_Count_def BitSet_capacity_def Let_def notifyCommitOffsetAdvanced_eq
        word_sle_eq)
    apply (auto simp: fun_eq_iff word_sle_eq word_eq_iff_signed [where ?'a = int])
    done
  from NewCursorAcker_result [of 8 ?q] g
  have "NewCursorAcker 8 ?q =
      (case acks (map (Pair (cursorIdxGenerator ?q)) (offsets_between (commitOffset ?q + 1) 8)) ?q of
         OutOfCapacity \<Rightarrow> Some OutOfCapacity
       | Returns q1 \<Rightarrow>
           Some (Returns (Inr (cursorIdxGenerator ?q,
                               q1\<lparr>cursorIdxGenerator := cursorIdxGenerator ?q + 1\<rparr>))))"
    by blast
  with e have c: "\<exists>q1. NewCursorAcker 8 ?q = Some (Returns (Inr (0, q1))) \<and>
         commitOffset q1 = 8 \<and> cursorIdxGenerator q1 = 1"
    by (simp add: NewQuorumAckTracker_eq MaxInt64_def)
  from n a b c show ?thesis by blast
qed

text \<open>
  A registration that passes both checks and does not succeed: replication factor 3, the
  head advanced to \<open>MaxInt64\<close>, and the first cursor registered at \<open>MaxInt64\<close>. The condition
  \<open>offset <= ackOffset\<close> of the loop holds for every offset, and the call never returns.
\<close>

theorem NewCursorAcker_MaxInt64_counterexample:
  "start 3 0 0 [AdvanceHeadOffsetOp MaxInt64] \<noteq> None \<and>
   \<not> replicationFactor (the (start 3 0 0 [AdvanceHeadOffsetOp MaxInt64])) - 1
       \<le> (word_of_int (cursorIdxGenerator (the (start 3 0 0 [AdvanceHeadOffsetOp MaxInt64])))
            :: uint32) \<and>
   \<not> headOffset (the (start 3 0 0 [AdvanceHeadOffsetOp MaxInt64])) <s MaxInt64 \<and>
   NewCursorAcker MaxInt64 (the (start 3 0 0 [AdvanceHeadOffsetOp MaxInt64])) = None"
proof -
  let ?q = "the (start 3 0 0 [AdvanceHeadOffsetOp MaxInt64])"
  have s: "start 3 0 0 [AdvanceHeadOffsetOp MaxInt64] =
      Some (AdvanceHeadOffset MaxInt64 (the (NewQuorumAckTracker 3 0 0)))"
    by (simp add: start_def NewQuorumAckTracker_eq MaxInt64_def)
  have q: "?q = AdvanceHeadOffset MaxInt64 (the (NewQuorumAckTracker 3 0 0))"
    by (simp add: s)
  have f: "replicationFactor ?q = 3" "cursorIdxGenerator ?q = 0" "headOffset ?q = MaxInt64"
    unfolding q
    by (simp_all add: AdvanceHeadOffset_def Let_def NewQuorumAckTracker_eq MaxInt64_def
          word_sle_eq)
  have c: "in_capacity 0 ?q"
    by (simp add: in_capacity_def BitSet_capacity_def f)
  have l: "NewCursorAcker_loop 0 (commitOffset ?q + 1) MaxInt64 ?q = None"
    using c by (simp add: NewCursorAcker_loop_MaxInt64)
  have "NewCursorAcker MaxInt64 ?q = None"
    by (simp add: NewCursorAcker_def f l word_le_nat_alt)
  with s f show ?thesis by (simp add: word_le_nat_alt)
qed

text \<open>
  C10, as the code has it. With \<open>replicationFactor = 0\<close> the guard compares with
  \<open>0 - 1 = 2^32 - 1\<close> in \<open>uint32\<close>, so \<open>NewCursorAcker\<close> returns \<open>ErrTooManyCursors\<close> exactly
  when \<open>uint32(cursorIdxGenerator)\<close> is \<open>2^32 - 1\<close>, and no index is within the capacity of
  the bitsets. As long as fewer than \<open>2^32 - 1\<close> cursors are registered, an
  \<open>ackOffset \<le> headOffset\<close> below \<open>MaxInt64\<close> gives a registration with the index
  \<open>cursorIdxGenerator\<close>, and leaves the rest of the state as it is, when no offset from
  \<open>commitOffset + 1\<close> up to \<open>ackOffset\<close> has an entry in the tracker map, so that no bit is
  set. With \<open>ackOffset = MaxInt64\<close> and an empty tracker map the call never returns.
\<close>

theorem NewCursorAcker_replicationFactor_0:
  assumes "replicationFactor q = 0"
  shows "(NewCursorAcker ackOffset q = Some (Returns (Inl ErrTooManyCursors))) =
           (cursorIdxGenerator q mod 2 ^ 32 = 2 ^ 32 - 1) \<and>
         \<not> in_capacity (cursorIdxGenerator q) q \<and>
         (cursorIdxGenerator q mod 2 ^ 32 \<noteq> 2 ^ 32 - 1 \<and> ackOffset <=s headOffset q \<longrightarrow>
            (ackOffset \<noteq> MaxInt64 \<and>
             (\<forall>x \<in> set (offsets_between (commitOffset q + 1) ackOffset). tracker q x = None) \<longrightarrow>
               NewCursorAcker ackOffset q =
                 Some (Returns (Inr (cursorIdxGenerator q,
                                     q\<lparr>cursorIdxGenerator := cursorIdxGenerator q + 1\<rparr>)))) \<and>
            (ackOffset = MaxInt64 \<and> tracker q = Map.empty \<longrightarrow> NewCursorAcker ackOffset q = None))"
proof -
  let ?g = "replicationFactor q - 1 \<le> (word_of_int (cursorIdxGenerator q) :: uint32)"
  have g: "?g = (cursorIdxGenerator q mod 2 ^ 32 = 2 ^ 32 - 1)"
    using assms guard_replicationFactor_0 [of "cursorIdxGenerator q"] by simp
  have a: "(NewCursorAcker ackOffset q = Some (Returns (Inl ErrTooManyCursors))) =
           (cursorIdxGenerator q mod 2 ^ 32 = 2 ^ 32 - 1)"
    using g by (auto simp: NewCursorAcker_eq split: option.splits outcome.splits)
  have b: "\<not> in_capacity (cursorIdxGenerator q) q"
    using assms by (simp add: in_capacity_def BitSet_capacity_def)
  have c: "NewCursorAcker ackOffset q =
      Some (Returns (Inr (cursorIdxGenerator q, q\<lparr>cursorIdxGenerator := cursorIdxGenerator q + 1\<rparr>)))"
    if "cursorIdxGenerator q mod 2 ^ 32 \<noteq> 2 ^ 32 - 1" "ackOffset <=s headOffset q"
      "ackOffset \<noteq> MaxInt64"
      "\<forall>x \<in> set (offsets_between (commitOffset q + 1) ackOffset). tracker q x = None"
  proof -
    have "acks (map (Pair (cursorIdxGenerator q)) (offsets_between (commitOffset q + 1) ackOffset)) q
        = Returns q"
      using that(4) by (intro acks_untracked) auto
    moreover have "\<not> headOffset q <s ackOffset"
      using that(2) by (simp add: word_sle_eq word_sless_alt)
    ultimately show ?thesis
      using that(1,3) g by (simp add: NewCursorAcker_eq NewCursorAcker_loop_eq)
  qed
  have d: "NewCursorAcker ackOffset q = None"
    if "cursorIdxGenerator q mod 2 ^ 32 \<noteq> 2 ^ 32 - 1" "ackOffset <=s headOffset q"
      "ackOffset = MaxInt64" "tracker q = Map.empty"
  proof -
    have "\<not> headOffset q <s ackOffset"
      using that(2) by (simp add: word_sle_eq word_sless_alt)
    then show ?thesis
      using that(1,3,4) g by (simp add: NewCursorAcker_eq NewCursorAcker_loop_MaxInt64)
  qed
  show ?thesis
    using a b c d by (intro conjI impI) simp_all
qed

text \<open>An instance: the first registration on a tracker with replication factor 0.\<close>

theorem NewCursorAcker_replicationFactor_0_witness:
  "NewQuorumAckTracker 0 0 0 \<noteq> None \<and>
   replicationFactor (the (NewQuorumAckTracker 0 0 0)) = 0 \<and>
   NewCursorAcker 0 (the (NewQuorumAckTracker 0 0 0)) \<noteq> Some (Returns (Inl ErrTooManyCursors)) \<and>
   NewCursorAcker 0 (the (NewQuorumAckTracker 0 0 0)) =
     Some (Returns (Inr (0, (the (NewQuorumAckTracker 0 0 0))\<lparr>cursorIdxGenerator := 1\<rparr>)))"
  using NewCursorAcker_replicationFactor_0 [of "the (NewQuorumAckTracker 0 0 0)" 0]
  by (simp add: NewQuorumAckTracker_eq MaxInt64_def offsets_between_def word_sle_eq)

lemma register_many:
  "n \<le> 4294967295 \<Longrightarrow>
   run (replicate n (NewCursorAckerOp 0)) (the (NewQuorumAckTracker 0 0 0)) =
     Some ((the (NewQuorumAckTracker 0 0 0))\<lparr>cursorIdxGenerator := int n\<rparr>)"
proof (induction n)
  case 0
  show ?case by (simp add: NewQuorumAckTracker_eq MaxInt64_def)
next
  case (Suc n)
  let ?init = "the (NewQuorumAckTracker 0 0 0)"
  let ?q = "?init\<lparr>cursorIdxGenerator := int n\<rparr>"
  from Suc.prems have "n \<le> 4294967295" by simp
  from Suc.IH [OF this]
  have r: "run (replicate n (NewCursorAckerOp 0)) ?init = Some ?q" .
  have m: "int n mod 2 ^ 32 \<noteq> 2 ^ 32 - 1"
    using Suc.prems by simp
  have "NewCursorAcker 0 ?q = Some (Returns (Inr (int n, ?q\<lparr>cursorIdxGenerator := int n + 1\<rparr>)))"
    using m guard_replicationFactor_0 [of "int n"]
    by (simp add: NewCursorAcker_eq NewCursorAcker_loop_eq NewQuorumAckTracker_eq MaxInt64_def
          offsets_between_def word_sless_alt)
  then have s: "step (NewCursorAckerOp 0) ?q = Some (?init\<lparr>cursorIdxGenerator := int (Suc n)\<rparr>)"
    by (simp add: add.commute)
  have e: "replicate (Suc n) (NewCursorAckerOp 0) =
      replicate n (NewCursorAckerOp 0) @ [NewCursorAckerOp 0]"
    by (simp add: replicate_append_same)
  show ?case
    by (simp only: e run_append r s option.case run.simps)
qed

text \<open>
  With replication factor 0 the error does come: \<open>2^32 - 1\<close> registrations succeed and lead
  to a state in which the next registration returns \<open>ErrTooManyCursors\<close>.
\<close>

theorem NewCursorAcker_replicationFactor_0_counterexample:
  "NewQuorumAckTracker 0 0 0 \<noteq> None \<and>
   run (replicate 4294967295 (NewCursorAckerOp 0)) (the (NewQuorumAckTracker 0 0 0)) =
     Some ((the (NewQuorumAckTracker 0 0 0))\<lparr>cursorIdxGenerator := 4294967295\<rparr>) \<and>
   replicationFactor ((the (NewQuorumAckTracker 0 0 0))\<lparr>cursorIdxGenerator := 4294967295\<rparr>) = 0 \<and>
   NewCursorAcker 0 ((the (NewQuorumAckTracker 0 0 0))\<lparr>cursorIdxGenerator := 4294967295\<rparr>) =
     Some (Returns (Inl ErrTooManyCursors))"
proof -
  have "run (replicate 4294967295 (NewCursorAckerOp 0)) (the (NewQuorumAckTracker 0 0 0)) =
     Some ((the (NewQuorumAckTracker 0 0 0))\<lparr>cursorIdxGenerator := int 4294967295\<rparr>)"
    by (rule register_many) simp
  moreover have "NewCursorAcker 0 ((the (NewQuorumAckTracker 0 0 0))\<lparr>cursorIdxGenerator := 4294967295\<rparr>) =
     Some (Returns (Inl ErrTooManyCursors))"
    using guard_replicationFactor_0 [of 4294967295]
    by (simp add: NewCursorAcker_eq NewQuorumAckTracker_eq MaxInt64_def)
  ultimately show ?thesis by (simp add: NewQuorumAckTracker_eq MaxInt64_def)
qed

section \<open>The overlap policy of the shard manager\<close>

lemma update_delete_overlaps_eq:
  "update_delete_overlaps upd ks shards =
     (\<lambda>k. if k \<in> set ks then without_overlaps upd shards k else shards k)"
proof (induction ks arbitrary: shards)
  case Nil
  show ?case by simp
next
  case (Cons k ks)
  show ?case
  proof (cases "shards k")
    case None
    then show ?thesis
      by (auto simp: Cons.IH without_overlaps_def fun_eq_iff)
  next
    case (Some existing)
    then show ?thesis
      by (auto simp: Cons.IH without_overlaps_def fun_eq_iff split: option.splits)
  qed
qed

lemma update_delete_overlaps_all:
  assumes "set ks = dom shards"
  shows "update_delete_overlaps upd ks shards = without_overlaps upd shards"
proof -
  have "without_overlaps upd shards k = shards k" if "k \<notin> set ks" for k
    using that assms by (auto simp: without_overlaps_def split: option.splits)
  then show ?thesis
    by (auto simp: update_delete_overlaps_eq fun_eq_iff)
qed

text \<open>
  C9. \<open>update\<close> handles the assignments of a batch in order. For an assignment whose id is
  not in the map, every shard of the map whose hash range overlaps the incoming range is
  deleted first, and then the assignment is inserted; for an assignment whose id is in
  the map, the entry is overwritten and nothing is deleted. Two ranges overlap unless one
  starts after the end of the other. This holds whatever the order in which \<open>range\<close> visits
  the map, as long as the visit covers the keys of the map.
\<close>

theorem update_overlap_policy:
  assumes "\<forall>m. set (range_order m) = dom m"
  shows "update range_order [] shards = shards \<and>
         update range_order (upd # updates) shards =
           update range_order updates
             ((if shards (Id' upd) = None then without_overlaps upd shards else shards)
                (Id' upd \<mapsto> upd)) \<and>
         overlap a b = (\<not> (MinInclusive a > MaxInclusive b \<or> MaxInclusive a < MinInclusive b))"
  using assms by (simp add: update_delete_overlaps_all overlap_def)

text \<open>
  Instances. The shards 1, 2 and 4 own the ranges \<open>[0, 99]\<close>, \<open>[100, 199]\<close> and
  \<open>[200, 299]\<close>; a new shard 3 with the range \<open>[50, 149]\<close> replaces the shards 1 and 2.
  An assignment for the known shard 1 with the range \<open>[0, 150]\<close> overwrites it and leaves
  shard 2, which it overlaps, in the map.
\<close>

theorem update_overlap_policy_witness:
  "(\<forall>m. set (sorted_keys m) = dom m) \<and>
   update sorted_keys
     [\<lparr>Id' = 3, Leader = ''c'', HashRange = \<lparr>MinInclusive = 50, MaxInclusive = 149\<rparr>\<rparr>]
     [1 \<mapsto> \<lparr>Id' = 1, Leader = ''a'', HashRange = \<lparr>MinInclusive = 0, MaxInclusive = 99\<rparr>\<rparr>,
      2 \<mapsto> \<lparr>Id' = 2, Leader = ''b'', HashRange = \<lparr>MinInclusive = 100, MaxInclusive = 199\<rparr>\<rparr>,
      4 \<mapsto> \<lparr>Id' = 4, Leader = ''d'', HashRange = \<lparr>MinInclusive = 200, MaxInclusive = 299\<rparr>\<rparr>]
   = [3 \<mapsto> \<lparr>Id' = 3, Leader = ''c'', HashRange = \<lparr>MinInclusive = 50, MaxInclusive = 149\<rparr>\<rparr>,
      4 \<mapsto> \<lparr>Id' = 4, Leader = ''d'', HashRange = \<lparr>MinInclusive = 200, MaxInclusive = 299\<rparr>\<rparr>] \<and>
   update sorted_keys
     [\<lparr>Id' = 1, Leader = ''z'', HashRange = \<lparr>MinInclusive = 0, MaxInclusive = 150\<rparr>\<rparr>]
     [1 \<mapsto> \<lparr>Id' = 1, Leader = ''a'', HashRange = \<lparr>MinInclusive = 0, MaxInclusive = 99\<rparr>\<rparr>,
      2 \<mapsto> \<lparr>Id' = 2, Leader = ''b'', HashRange = \<lparr>MinInclusive = 100, MaxInclusive = 199\<rparr>\<rparr>]
   = [1 \<mapsto> \<lparr>Id' = 1, Leader = ''z'', HashRange = \<lparr>MinInclusive = 0, MaxInclusive = 150\<rparr>\<rparr>,
      2 \<mapsto> \<lparr>Id' = 2, Leader = ''b'', HashRange = \<lparr>MinInclusive = 100, MaxInclusive = 199\<rparr>\<rparr>]"
proof -
  let ?u3 = "\<lparr>Id' = 3, Leader = ''c'', HashRange = \<lparr>MinInclusive = 50, MaxInclusive = 149\<rparr>\<rparr>"
  let ?u1 = "\<lparr>Id' = 1, Leader = ''z'', HashRange = \<lparr>MinInclusive = 0, MaxInclusive = 150\<rparr>\<rparr>"
  let ?m0 = "[(1::uint32) \<mapsto> \<lparr>Id' = 1, Leader = ''a'', HashRange = \<lparr>MinInclusive = 0, MaxInclusive = 99\<rparr>\<rparr>,
      2 \<mapsto> \<lparr>Id' = 2, Leader = ''b'', HashRange = \<lparr>MinInclusive = 100, MaxInclusive = 199\<rparr>\<rparr>,
      4 \<mapsto> \<lparr>Id' = 4, Leader = ''d'', HashRange = \<lparr>MinInclusive = 200, MaxInclusive = 299\<rparr>\<rparr>]"
  let ?m1 = "[(1::uint32) \<mapsto> \<lparr>Id' = 1, Leader = ''a'', HashRange = \<lparr>MinInclusive = 0, MaxInclusive = 99\<rparr>\<rparr>,
      2 \<mapsto> \<lparr>Id' = 2, Leader = ''b'', HashRange = \<lparr>MinInclusive = 100, MaxInclusive = 199\<rparr>\<rparr>]"
  have h: "\<forall>m. set (sorted_keys m) = dom m"
    by (simp add: sorted_keys_def)
  have a: "update sorted_keys [?u3] ?m0 = (without_overlaps ?u3 ?m0)(3 \<mapsto> ?u3)"
    using update_overlap_policy [OF h, of ?m0 ?u3 "[]"] by (simp del: update.simps(2))
  have b: "update sorted_keys [?u1] ?m1 = ?m1(1 \<mapsto> ?u1)"
    using update_overlap_policy [OF h, of ?m1 ?u1 "[]"] by (simp del: update.simps(2))
  have c: "(without_overlaps ?u3 ?m0)(3 \<mapsto> ?u3) =
      [3 \<mapsto> ?u3, 4 \<mapsto> \<lparr>Id' = 4, Leader = ''d'', HashRange = \<lparr>MinInclusive = 200, MaxInclusive = 299\<rparr>\<rparr>]"
    by (auto simp: without_overlaps_def overlap_def fun_eq_iff word_less_nat_alt)
  have d: "?m1(1 \<mapsto> ?u1) = [1 \<mapsto> ?u1,
      2 \<mapsto> \<lparr>Id' = 2, Leader = ''b'', HashRange = \<lparr>MinInclusive = 100, MaxInclusive = 199\<rparr>\<rparr>]"
    by (auto simp: fun_eq_iff)
  show ?thesis
    using h a b c d by simp
qed

end
